theory Spec2Isabelle
  imports Main "HOL-Library.Sublist" "HOL-Library.Char_ord" "HOL-Library.List_Lexorder"
begin

section \<open>Values of the program\<close>

text \<open>
  The bot (\<^verbatim>\<open>src/bot.py\<close>) handles decoded JSON: a listing ("bounty") is whatever
  \<^verbatim>\<open>resp.json()\<close> produced, so the model keeps the dynamic type. Numbers are integers;
  an object is the list of its items in insertion order (a decoded dict has each key once).
  Strings are byte strings; \<^verbatim>\<open>str.lower\<close> is modelled on the ASCII letters.
\<close>

datatype json =
    JNull
  | JBool bool
  | JInt int
  | JStr string
  | JArr "json list"
  | JObj "(string \<times> json) list"

text \<open>The exceptions that occur in the modelled part of the program.\<close>

datatype error =
    ClientError
  | TimeoutError
  | JSONDecodeError
  | AttributeError
  | TypeError
  | IntegrityError
  | OperationalError
  | RetryError

text \<open>\<^verbatim>\<open>d.get(key, default)\<close> on a dict.\<close>

definition dict_get :: "(string \<times> json) list \<Rightarrow> string \<Rightarrow> json \<Rightarrow> json" where
  "dict_get d key dflt = (case map_of d key of None \<Rightarrow> dflt | Some v \<Rightarrow> v)"

subsection \<open>Strings\<close>

definition lower_char :: "char \<Rightarrow> char" where
  "lower_char c =
     (let n = (of_char c :: nat) in if 65 \<le> n \<and> n \<le> 90 then char_of (n + 32) else c)"

definition lower :: "string \<Rightarrow> string" where
  "lower s = map lower_char s"

text \<open>
  \<^verbatim>\<open>needle in haystack\<close> on two strings: the search for an occurrence, position by
  position.
\<close>

fun py_contains :: "string \<Rightarrow> string \<Rightarrow> bool" where
  "py_contains [] needle = (needle = [])"
| "py_contains (h # hs) needle = (prefix needle (h # hs) \<or> py_contains hs needle)"

text \<open>
  \<^verbatim>\<open>
  def matches_location(self, location: str, keyword: str) -> bool:
      return keyword.lower() in location.lower()
  \<close>
\<close>

definition matches_location :: "string \<Rightarrow> string \<Rightarrow> bool" where
  "matches_location location keyword = py_contains (lower location) (lower keyword)"

subsection \<open>Python's \<^verbatim>\<open>str()\<close>\<close>

function str_nat :: "nat \<Rightarrow> string" where
  "str_nat n =
     (if n < 10 then [char_of (48 + n)] else str_nat (n div 10) @ [char_of (48 + n mod 10)])"
  by pat_completeness auto
termination
  by (relation "measure id") auto

declare str_nat.simps [simp del]

definition str_int :: "int \<Rightarrow> string" where
  "str_int i = (if i < 0 then CHR ''-'' # str_nat (nat (- i)) else str_nat (nat i))"

text \<open>
  \<^verbatim>\<open>str(v)\<close> of a decoded JSON value. The text Python prints for a list or a dict (its
  \<^verbatim>\<open>repr\<close>) is the parameter \<open>R\<close>; no property below depends on it.
\<close>

fun py_str :: "(json \<Rightarrow> string) \<Rightarrow> json \<Rightarrow> string" where
  "py_str R (JStr s) = s"
| "py_str R JNull = ''None''"
| "py_str R (JBool b) = (if b then ''True'' else ''False'')"
| "py_str R (JInt i) = str_int i"
| "py_str R v = R v"

section \<open>Effects\<close>

text \<open>
  What a run does to the outside is a list of events, in order: the HTTP request of one
  fetch attempt, a sleep (seconds), a log record, a call of a \<^verbatim>\<open>Database\<close> method made by
  the poll loop, and a call of \<^verbatim>\<open>send_bounty_notification\<close> (a delivery to a channel).
\<close>

datatype level = LInfo | LWarning | LError

datatype message =
    FetchingNew
  | Retrieved nat
  | PollingError error
  | MissingId
  | GuildError string error
  | UnexpectedStructure "string list"
  | AuthFailed
  | RateLimited
  | ApiError int
  | RequestTimedOut
  | ClientErrorLogged
  | Retrying nat
  | ChannelNotFound string
  | SentBounty string
  | MissingPermissions string
  | SendFailed

datatype db_call =
    IsProcessed string
  | MarkProcessed string
  | GetAllGuilds
  | GetSubscriptions string

datatype event =
    HttpGet
  | Sleep int
  | Log level message
  | Query db_call
  | Send string json json

section \<open>Database\<close>

text \<open>
  The three tables of \<^verbatim>\<open>Database._create_tables\<close>, rows in insertion order:
  \<^verbatim>\<open>guild_settings(guild_id PRIMARY KEY, channel_id)\<close>,
  \<^verbatim>\<open>subscriptions(id AUTOINCREMENT, guild_id, keyword, UNIQUE(guild_id, keyword))\<close> with
  the counter the autoincrement column draws from, and
  \<^verbatim>\<open>processed_bounties(bounty_id PRIMARY KEY, processed_at)\<close>.
\<close>

record database =
  guild_settings :: "(string \<times> string) list"
  subscriptions :: "(nat \<times> string \<times> string) list"
  subscriptions_seq :: nat
  processed_bounties :: "(string \<times> nat) list"

definition empty_database :: database where
  "empty_database =
     \<lparr>guild_settings = [], subscriptions = [], subscriptions_seq = 0, processed_bounties = []\<rparr>"

text \<open>\<^verbatim>\<open>INSERT OR REPLACE INTO guild_settings\<close>: a row with the same key is replaced.\<close>

definition set_channel :: "database \<Rightarrow> string \<Rightarrow> string \<Rightarrow> database" where
  "set_channel db guild_id channel_id =
     db\<lparr>guild_settings :=
          filter (\<lambda>row. fst row \<noteq> guild_id) (guild_settings db) @ [(guild_id, channel_id)]\<rparr>"

definition get_channel :: "database \<Rightarrow> string \<Rightarrow> string option" where
  "get_channel db guild_id = map_of (guild_settings db) guild_id"

definition get_all_guilds :: "database \<Rightarrow> (string \<times> string) list" where
  "get_all_guilds db = guild_settings db"

text \<open>
  \<^verbatim>\<open>INSERT INTO subscriptions (guild_id, keyword) VALUES (?, ?)\<close>: the statement itself
  checks \<^verbatim>\<open>UNIQUE(guild_id, keyword)\<close> and raises \<^verbatim>\<open>IntegrityError\<close>, changing nothing.
\<close>

definition insert_subscription :: "database \<Rightarrow> string \<Rightarrow> string \<Rightarrow> error + database" where
  "insert_subscription db guild_id keyword =
     (if (guild_id, keyword) \<in> set (map snd (subscriptions db)) then Inl IntegrityError
      else Inr (db\<lparr>subscriptions :=
                      subscriptions db @ [(Suc (subscriptions_seq db), guild_id, keyword)],
                    subscriptions_seq := Suc (subscriptions_seq db)\<rparr>))"

text \<open>
  \<^verbatim>\<open>
  async def add_subscription(self, guild_id: str, keyword: str) -> bool:
      try:
          await self.db.execute("INSERT INTO subscriptions ...", (guild_id, keyword))
          await self.db.commit()
          return True
      except aiosqlite.IntegrityError:
          return False
  \<close>
\<close>

definition add_subscription :: "database \<Rightarrow> string \<Rightarrow> string \<Rightarrow> (error + bool) \<times> database" where
  "add_subscription db guild_id keyword =
     (case insert_subscription db guild_id keyword of
        Inr db' \<Rightarrow> (Inr True, db')
      | Inl e \<Rightarrow> if e = IntegrityError then (Inr False, db) else (Inl e, db))"

definition remove_subscription :: "database \<Rightarrow> string \<Rightarrow> string \<Rightarrow> database" where
  "remove_subscription db guild_id keyword =
     db\<lparr>subscriptions := filter (\<lambda>row. snd row \<noteq> (guild_id, keyword)) (subscriptions db)\<rparr>"

text \<open>
  \<^verbatim>\<open>SELECT keyword FROM subscriptions WHERE guild_id = ?\<close> has no \<^verbatim>\<open>ORDER BY\<close>; SQLite
  answers it from the index of \<^verbatim>\<open>UNIQUE(guild_id, keyword)\<close>, so the keywords of the tenant
  come in the order of that index: ascending, compared byte by byte.
\<close>

definition get_subscriptions :: "database \<Rightarrow> string \<Rightarrow> string list" where
  "get_subscriptions db guild_id =
     sort (map (\<lambda>row. snd (snd row))
            (filter (\<lambda>row. fst (snd row) = guild_id) (subscriptions db)))"

definition is_bounty_processed :: "database \<Rightarrow> string \<Rightarrow> bool" where
  "is_bounty_processed db bounty_id = (map_of (processed_bounties db) bounty_id \<noteq> None)"

text \<open>
  \<^verbatim>\<open>INSERT OR IGNORE INTO processed_bounties (bounty_id) VALUES (?)\<close>; \<open>now\<close> is the
  \<^verbatim>\<open>CURRENT_TIMESTAMP\<close> default of \<^verbatim>\<open>processed_at\<close>.
\<close>

definition mark_bounty_processed :: "nat \<Rightarrow> database \<Rightarrow> string \<Rightarrow> database" where
  "mark_bounty_processed now db bounty_id =
     (if bounty_id \<in> set (map fst (processed_bounties db)) then db
      else db\<lparr>processed_bounties := processed_bounties db @ [(bounty_id, now)]\<rparr>)"

section \<open>API client\<close>

text \<open>
  What one \<^verbatim>\<open>session.get\<close> brings: a response with its status and the outcome of
  \<^verbatim>\<open>resp.json()\<close>, or an exception of the HTTP layer.
\<close>

datatype http_outcome =
    Response int "error + json"
  | Raised error

definition probe_keys :: "string list" where
  "probe_keys = [''bounties'', ''data'', ''results'', ''items'']"

text \<open>\<^verbatim>\<open>for key in [...]: if key in data: return data[key]\<close>\<close>

fun probe :: "string list \<Rightarrow> (string \<times> json) list \<Rightarrow> json option" where
  "probe [] d = None"
| "probe (key # keys) d = (case map_of d key of Some v \<Rightarrow> Some v | None \<Rightarrow> probe keys d)"

text \<open>The branch \<^verbatim>\<open>resp.status == 200\<close> of \<^verbatim>\<open>fetch_bounties\<close>, after the body is decoded.\<close>

fun normalize_response :: "json \<Rightarrow> event list \<times> json" where
  "normalize_response (JArr xs) = ([], JArr xs)"
| "normalize_response (JObj d) =
     (case probe probe_keys d of
        Some v \<Rightarrow> ([], v)
      | None \<Rightarrow> ([Log LWarning (UnexpectedStructure (map fst d))], JArr []))"
| "normalize_response v = ([], JArr [])"

text \<open>The two \<^verbatim>\<open>except\<close> clauses of \<^verbatim>\<open>fetch_bounties\<close>: both log and re-raise.\<close>

definition on_exception :: "error \<Rightarrow> event list" where
  "on_exception e =
     (if e = TimeoutError then [Log LError RequestTimedOut]
      else if e = ClientError then [Log LError ClientErrorLogged]
      else [])"

text \<open>The body of \<^verbatim>\<open>fetch_bounties\<close>: one attempt.\<close>

fun fetch_once :: "http_outcome \<Rightarrow> event list \<times> (error + json)" where
  "fetch_once (Raised e) = (HttpGet # on_exception e, Inl e)"
| "fetch_once (Response status body) =
     (if status = 200 then
        (case body of
           Inl e \<Rightarrow> (HttpGet # on_exception e, Inl e)
         | Inr data \<Rightarrow>
             (HttpGet # fst (normalize_response data), Inr (snd (normalize_response data))))
      else if status = 401 then ([HttpGet, Log LError AuthFailed], Inr (JArr []))
      else if status = 429 then
        (HttpGet # Log LWarning RateLimited # on_exception ClientError, Inl ClientError)
      else ([HttpGet, Log LError (ApiError status)], Inr (JArr [])))"

subsection \<open>The retry decorator\<close>

text \<open>
  \<^verbatim>\<open>
  @retry(stop=stop_after_attempt(config.max_retries),
         wait=wait_exponential(multiplier=1, min=2, max=10),
         retry=retry_if_exception_type((aiohttp.ClientError, asyncio.TimeoutError)),
         before_sleep=lambda retry_state: logger.warning(...))
  \<close>
  The strategies are tenacity's: \<^verbatim>\<open>stop_after_attempt(n)\<close> stops when
  \<^verbatim>\<open>attempt_number >= n\<close>, and \<^verbatim>\<open>wait_exponential\<close> waits
  \<^verbatim>\<open>max(max(0, min), min(multiplier * 2 ** (attempt_number - 1), max))\<close> seconds after
  the attempt numbered \<^verbatim>\<open>attempt_number\<close> (counted from 1). When the stop condition holds
  after a failed attempt, tenacity raises \<^verbatim>\<open>RetryError\<close>.
\<close>

definition stop_after_attempt :: "int \<Rightarrow> nat \<Rightarrow> bool" where
  "stop_after_attempt max_attempt_number attempt_number =
     (max_attempt_number \<le> int attempt_number)"

definition wait_exponential :: "int \<Rightarrow> int \<Rightarrow> int \<Rightarrow> nat \<Rightarrow> int" where
  "wait_exponential multiplier min_wait max_wait attempt_number =
     max (max 0 min_wait) (min (multiplier * 2 ^ (attempt_number - 1)) max_wait)"

definition retry_if_exception_type :: "error \<Rightarrow> bool" where
  "retry_if_exception_type e = (e = ClientError \<or> e = TimeoutError)"

text \<open>\<open>http k\<close> is what the \<open>k\<close>-th attempt of the call meets.\<close>

function retry_call :: "int \<Rightarrow> (nat \<Rightarrow> http_outcome) \<Rightarrow> nat \<Rightarrow> event list \<times> (error + json)" where
  "retry_call max_attempts http attempt_number =
     (case fetch_once (http attempt_number) of
        (evs, Inr v) \<Rightarrow> (evs, Inr v)
      | (evs, Inl e) \<Rightarrow>
          if \<not> retry_if_exception_type e then (evs, Inl e)
          else if stop_after_attempt max_attempts attempt_number then (evs, Inl RetryError)
          else
            (case retry_call max_attempts http (Suc attempt_number) of
               (evs', r) \<Rightarrow>
                 (evs @ [Log LWarning (Retrying attempt_number),
                         Sleep (wait_exponential 1 2 10 attempt_number)] @ evs', r)))"
  by pat_completeness auto
termination
  by (relation "measure (\<lambda>(m, h, k). nat (m - int k))") (auto simp: stop_after_attempt_def)

declare retry_call.simps [simp del]

text \<open>
  \<^verbatim>\<open>Config\<close>: \<^verbatim>\<open>from_env\<close> sets the token, URL, key and mock flag only, so the other fields
  always hold their defaults.
\<close>

definition max_retries :: int where
  "max_retries = 3"

definition poll_interval :: int where
  "poll_interval = 60"

definition fetch_bounties :: "int \<Rightarrow> (nat \<Rightarrow> http_outcome) \<Rightarrow> event list \<times> (error + json)" where
  "fetch_bounties max_attempts http = retry_call max_attempts http 1"

section \<open>The bot\<close>

text \<open>
  What one call of \<^verbatim>\<open>process_bounty\<close> meets outside the program: whether a database call
  fails with an I/O error, the timestamp the database stamps a new row with, and what becomes
  of a delivery (channel lookup, embed, \<^verbatim>\<open>channel.send\<close>).
\<close>

datatype sink_outcome = Delivered | NoChannel | Forbidden | Failed

record env =
  store_fails :: "db_call \<Rightarrow> bool"
  current_timestamp :: nat
  sink :: "string \<Rightarrow> json \<Rightarrow> json \<Rightarrow> sink_outcome"

text \<open>
  \<^verbatim>\<open>send_bounty_notification\<close> catches everything itself:
  \<^verbatim>\<open>
  try:
      channel = self.get_channel(int(channel_id))
      if not channel:
          logger.warning(...); return
      embed = self.create_bounty_embed(bounty, location)
      await channel.send(embed=embed)
      logger.info(...)
  except discord.Forbidden:
      logger.error(...)
  except Exception as e:
      logger.error(...)
  \<close>
\<close>

definition send_bounty_notification :: "env \<Rightarrow> string \<Rightarrow> json \<Rightarrow> json \<Rightarrow> event list" where
  "send_bounty_notification e channel_id bounty location =
     Send channel_id bounty location #
     (case sink e channel_id bounty location of
        Delivered \<Rightarrow> [Log LInfo (SentBounty channel_id)]
      | NoChannel \<Rightarrow> [Log LWarning (ChannelNotFound channel_id)]
      | Forbidden \<Rightarrow> [Log LError (MissingPermissions channel_id)]
      | Failed \<Rightarrow> [Log LError SendFailed])"

text \<open>
  The keyword loop of \<^verbatim>\<open>process_bounty\<close>. \<^verbatim>\<open>location\<close> is whatever the listing holds under
  that key; \<^verbatim>\<open>location.lower()\<close> raises \<^verbatim>\<open>AttributeError\<close> unless it is a string.
  \<^verbatim>\<open>
  matched = False
  for keyword in keywords:
      if self.matches_location(location, keyword):
          matched = True
          break
  \<close>
\<close>

fun match_keywords :: "json \<Rightarrow> string list \<Rightarrow> error + bool" where
  "match_keywords location [] = Inr False"
| "match_keywords location (keyword # keywords) =
     (case location of
        JStr loc \<Rightarrow>
          if matches_location loc keyword then Inr True else match_keywords location keywords
      | _ \<Rightarrow> Inl AttributeError)"

text \<open>The body of \<^verbatim>\<open>for guild_id, channel_id in guilds\<close>: a \<^verbatim>\<open>try\<close> that catches everything.\<close>

definition guild_step :: "env \<Rightarrow> database \<Rightarrow> json \<Rightarrow> json \<Rightarrow> string \<times> string \<Rightarrow> event list" where
  "guild_step e db bounty location guild =
     (case guild of (guild_id, channel_id) \<Rightarrow>
        Query (GetSubscriptions guild_id) #
        (if store_fails e (GetSubscriptions guild_id)
         then [Log LError (GuildError guild_id OperationalError)]
         else
           (case match_keywords location (get_subscriptions db guild_id) of
              Inl err \<Rightarrow> [Log LError (GuildError guild_id err)]
            | Inr matched \<Rightarrow>
                if matched then send_bounty_notification e channel_id bounty location else [])))"

fun fanout :: "env \<Rightarrow> database \<Rightarrow> json \<Rightarrow> json \<Rightarrow> (string \<times> string) list \<Rightarrow> event list" where
  "fanout e db bounty location [] = []"
| "fanout e db bounty location (guild # guilds) =
     guild_step e db bounty location guild @ fanout e db bounty location guilds"

text \<open>\<^verbatim>\<open>bounty_id = str(bounty.get("id", ""))\<close>\<close>

definition bounty_id :: "(json \<Rightarrow> string) \<Rightarrow> (string \<times> json) list \<Rightarrow> string" where
  "bounty_id R d = py_str R (dict_get d ''id'' (JStr []))"

text \<open>
  \<^verbatim>\<open>process_bounty\<close>: the exception that leaves it (if any), the database after it, and its
  events. The three database calls before the loop stand outside every \<^verbatim>\<open>try\<close>.
\<close>

definition process_bounty ::
  "(json \<Rightarrow> string) \<Rightarrow> env \<Rightarrow> database \<Rightarrow> json \<Rightarrow> error option \<times> database \<times> event list" where
  "process_bounty R e db bounty =
     (case bounty of
        JObj d \<Rightarrow>
          (let bid = bounty_id R d in
           if bid = [] then (None, db, [Log LWarning MissingId])
           else if store_fails e (IsProcessed bid)
             then (Some OperationalError, db, [Query (IsProcessed bid)])
           else if is_bounty_processed db bid
             then (None, db, [Query (IsProcessed bid)])
           else if store_fails e (MarkProcessed bid)
             then (Some OperationalError, db,
                   [Query (IsProcessed bid), Query (MarkProcessed bid)])
           else
             (let db' = mark_bounty_processed (current_timestamp e) db bid;
                  location = dict_get d ''location'' (JStr ''Remote'');
                  evs = [Query (IsProcessed bid), Query (MarkProcessed bid),
                         Query GetAllGuilds]
              in if store_fails e GetAllGuilds then (Some OperationalError, db', evs)
                 else (None, db', evs @ fanout e db' bounty location (get_all_guilds db'))))
      | _ \<Rightarrow> (Some AttributeError, db, []))"

text \<open>
  \<^verbatim>\<open>for bounty in bounties: await self.process_bounty(bounty)\<close>; \<open>envs k\<close> is what the
  \<open>k\<close>-th listing of the batch meets. An exception ends the loop.
\<close>

fun process_all ::
  "(json \<Rightarrow> string) \<Rightarrow> (nat \<Rightarrow> env) \<Rightarrow> nat \<Rightarrow> database \<Rightarrow> json list
     \<Rightarrow> error option \<times> database \<times> event list" where
  "process_all R envs k db [] = (None, db, [])"
| "process_all R envs k db (bounty # rest) =
     (case process_bounty R (envs k) db bounty of
        (Some err, db', evs) \<Rightarrow> (Some err, db', evs)
      | (None, db', evs) \<Rightarrow>
          (case process_all R envs (Suc k) db' rest of
             (r, db'', evs') \<Rightarrow> (r, db'', evs @ evs')))"

text \<open>
  \<^verbatim>\<open>len(bounties)\<close> and \<^verbatim>\<open>for bounty in bounties\<close> on whatever \<^verbatim>\<open>fetch_bounties\<close> returned: a
  list gives its elements, a string its characters, a dict its keys; anything else raises
  \<^verbatim>\<open>TypeError\<close>.
\<close>

fun py_iter :: "json \<Rightarrow> error + json list" where
  "py_iter (JArr xs) = Inr xs"
| "py_iter (JStr s) = Inr (map (\<lambda>c. JStr [c]) s)"
| "py_iter (JObj d) = Inr (map (\<lambda>item. JStr (fst item)) d)"
| "py_iter v = Inl TypeError"

record cycle_env =
  http_env :: "nat \<Rightarrow> http_outcome"
  listing_env :: "nat \<Rightarrow> env"

text \<open>
  One turn of the \<^verbatim>\<open>while\<close> loop of \<^verbatim>\<open>poll_bounties\<close>:
  \<^verbatim>\<open>
  try:
      logger.info("Fetching new bounties...")
      bounties = await self.api.fetch_bounties()
      logger.info(f"Retrieved {len(bounties)} bounties")
      for bounty in bounties:
          await self.process_bounty(bounty)
  except Exception as e:
      logger.error(f"Polling error: {e}", exc_info=True)
  await asyncio.sleep(config.poll_interval)
  \<close>
\<close>

definition poll_cycle :: "(json \<Rightarrow> string) \<Rightarrow> cycle_env \<Rightarrow> database \<Rightarrow> database \<times> event list" where
  "poll_cycle R ce db =
     (case fetch_bounties max_retries (http_env ce) of
        (evs, Inl err) \<Rightarrow>
          (db, Log LInfo FetchingNew # evs @ [Log LError (PollingError err), Sleep poll_interval])
      | (evs, Inr bounties) \<Rightarrow>
          (case py_iter bounties of
             Inl err \<Rightarrow>
               (db, Log LInfo FetchingNew # evs
                      @ [Log LError (PollingError err), Sleep poll_interval])
           | Inr items \<Rightarrow>
               (case process_all R (listing_env ce) 0 db items of
                  (r, db', evs') \<Rightarrow>
                    (db', Log LInfo FetchingNew # evs @ [Log LInfo (Retrieved (length items))]
                            @ evs'
                            @ (case r of None \<Rightarrow> [] | Some err \<Rightarrow> [Log LError (PollingError err)])
                            @ [Sleep poll_interval]))))"

text \<open>
  \<^verbatim>\<open>while not self.is_closed()\<close>: the loop runs one cycle per element of the list, which
  holds what each cycle meets until the client is closed.
\<close>

fun poll_bounties :: "(json \<Rightarrow> string) \<Rightarrow> cycle_env list \<Rightarrow> database \<Rightarrow> database \<times> event list" where
  "poll_bounties R [] db = (db, [])"
| "poll_bounties R (ce # ces) db =
     (case poll_cycle R ce db of
        (db', evs) \<Rightarrow>
          (case poll_bounties R ces db' of (db'', evs') \<Rightarrow> (db'', evs @ evs')))"

subsection \<open>Reading a trace\<close>

fun is_send :: "event \<Rightarrow> bool" where
  "is_send (Send channel_id bounty location) = True"
| "is_send ev = False"

definition sends :: "event list \<Rightarrow> event list" where
  "sends evs = filter is_send evs"

definition attempts :: "event list \<Rightarrow> nat" where
  "attempts evs = length (filter (\<lambda>ev. ev = HttpGet) evs)"

fun sleep_of :: "event \<Rightarrow> int list" where
  "sleep_of (Sleep s) = [s]"
| "sleep_of ev = []"

definition sleeps :: "event list \<Rightarrow> int list" where
  "sleeps evs = concat (map sleep_of evs)"

text \<open>The listing a delivery is for, by its id; the tenants a fan-out reads; the ids a batch looks up.\<close>

fun listing_id :: "(json \<Rightarrow> string) \<Rightarrow> json \<Rightarrow> string" where
  "listing_id R (JObj d) = bounty_id R d"
| "listing_id R v = []"

fun sent_id :: "(json \<Rightarrow> string) \<Rightarrow> event \<Rightarrow> string list" where
  "sent_id R (Send channel_id bounty location) = [listing_id R bounty]"
| "sent_id R ev = []"

definition sent_ids :: "(json \<Rightarrow> string) \<Rightarrow> event list \<Rightarrow> string list" where
  "sent_ids R evs = concat (map (sent_id R) evs)"

fun read_guild :: "event \<Rightarrow> string list" where
  "read_guild (Query (GetSubscriptions guild_id)) = [guild_id]"
| "read_guild ev = []"

definition guilds_read :: "event list \<Rightarrow> string list" where
  "guilds_read evs = concat (map read_guild evs)"

fun looked_up :: "event \<Rightarrow> string list" where
  "looked_up (Query (IsProcessed bid)) = [bid]"
| "looked_up ev = []"

definition ids_looked_up :: "event list \<Rightarrow> string list" where
  "ids_looked_up evs = concat (map looked_up evs)"

text \<open>The declared result of \<^verbatim>\<open>fetch_bounties\<close>, \<^verbatim>\<open>List[Dict]\<close>.\<close>

fun is_dict :: "json \<Rightarrow> bool" where
  "is_dict (JObj d) = True"
| "is_dict v = False"

fun is_listing_seq :: "json \<Rightarrow> bool" where
  "is_listing_seq (JArr xs) = list_all is_dict xs"
| "is_listing_seq v = False"

text \<open>
  An attempt fails with a transient error when \<^verbatim>\<open>fetch_bounties\<close> raises an exception the
  retry predicate accepts: a network error or a timeout (of the request, or while the body
  of a 200 response is read), or the status 429.
\<close>

definition transient :: "http_outcome \<Rightarrow> bool" where
  "transient out =
     (case snd (fetch_once out) of Inl e \<Rightarrow> retry_if_exception_type e | Inr v \<Rightarrow> False)"

text \<open>
  The specification's wording of the backoff, "the delays double on each retry": every delay
  after the first is twice the one before it.
\<close>

fun doubles_each_retry :: "int list \<Rightarrow> bool" where
  "doubles_each_retry (x # y # ys) = (y = 2 * x \<and> doubles_each_retry (y # ys))"
| "doubles_each_retry ds = True"

subsection \<open>Inputs for examples\<close>

text \<open>The attempts of a call meet \<open>outs\<close> in turn, and \<open>dflt\<close> from then on.\<close>

definition http_seq :: "http_outcome list \<Rightarrow> http_outcome \<Rightarrow> nat \<Rightarrow> http_outcome" where
  "http_seq outs dflt k = (if 0 < k \<and> k \<le> length outs then outs ! (k - 1) else dflt)"

text \<open>Two tenants with a channel and one keyword each; listing 7 is already processed.\<close>

definition db_example :: database where
  "db_example =
     \<lparr>guild_settings = [(''g1'', ''100''), (''g2'', ''200'')],
      subscriptions = [(1, ''g1'', ''remote''), (2, ''g2'', ''berlin'')],
      subscriptions_seq = 2,
      processed_bounties = [(''7'', 0)]\<rparr>"

text \<open>Nothing fails: every database call succeeds and every delivery arrives.\<close>

definition env_ok :: env where
  "env_ok = \<lparr>store_fails = (\<lambda>c. False), current_timestamp = 1, sink = (\<lambda>c b l. Delivered)\<rparr>"

text \<open>Reading the subscriptions of \<open>g1\<close> fails and every delivery is refused.\<close>

definition env_bad :: env where
  "env_bad = \<lparr>store_fails = (\<lambda>c. c = GetSubscriptions ''g1''), current_timestamp = 1,
               sink = (\<lambda>c b l. Forbidden)\<rparr>"

definition repr_example :: "json \<Rightarrow> string" where
  "repr_example v = ''?''"

definition listing_remote :: "(string \<times> json) list" where
  "listing_remote = [(''id'', JStr ''1''), (''title'', JStr ''Job''), (''location'', JStr ''Remote'')]"

definition listing_berlin :: "(string \<times> json) list" where
  "listing_berlin = [(''id'', JInt 2), (''location'', JStr ''Berlin, Germany'')]"

text \<open>
  A cycle whose fetch returns both listings at the first attempt; the first listing meets
  \<open>env_bad\<close>, the others \<open>env_ok\<close>.
\<close>

definition ce_example :: cycle_env where
  "ce_example =
     \<lparr>http_env = http_seq [Response 200 (Inr (JArr [JObj listing_remote, JObj listing_berlin]))]
                   (Raised ClientError),
      listing_env = (\<lambda>k. if k = 0 then env_bad else env_ok)\<rparr>"

text \<open>The second tenant also subscribes to the empty keyword.\<close>

definition db_catch_all :: database where
  "db_catch_all = snd (add_subscription db_example ''g2'' [])"

text \<open>A fetch that returns the body \<open>{"data": "oops"}\<close>.\<close>

definition ce_oops :: cycle_env where
  "ce_oops =
     \<lparr>http_env = http_seq [Response 200 (Inr (JObj [(''data'', JStr ''oops'')]))] (Raised ClientError),
      listing_env = (\<lambda>k. env_ok)\<rparr>"

text \<open>
  A source that is down: rate limit, then a network error, then a timeout while the body is
  read, then timeouts for ever.
\<close>

definition ce_down :: cycle_env where
  "ce_down =
     \<lparr>http_env = http_seq [Response 429 (Inl JSONDecodeError), Raised ClientError,
                             Response 200 (Inl TimeoutError)]
                   (Raised TimeoutError),
      listing_env = (\<lambda>k. env_ok)\<rparr>"

text \<open>
  A paged reply as the mock API shapes it, with several keys; its \<open>data\<close> is a number.
\<close>

definition body_paged :: "(string \<times> json) list" where
  "body_paged = [(''total'', JInt 1), (''data'', JInt 5), (''items'', JArr []), (''page'', JInt 1)]"

definition ce_paged :: cycle_env where
  "ce_paged =
     \<lparr>http_env = http_seq [Response 200 (Inr (JObj body_paged))] (Raised ClientError),
      listing_env = (\<lambda>k. env_ok)\<rparr>"

section \<open>Properties\<close>

lemma py_contains_iff: "py_contains hay needle \<longleftrightarrow> (\<exists>pre suf. hay = pre @ needle @ suf)"
proof (induction hay)
  case Nil
  then show ?case by auto
next
  case (Cons h hs)
  have "sublist needle (h # hs) \<longleftrightarrow> prefix needle (h # hs) \<or> sublist needle hs"
    by (rule sublist_Cons_right)
  with Cons show ?case
    by (simp add: sublist_def)
qed

text \<open>
  C2. For all strings, \<open>matches_location location keyword\<close> holds exactly when the
  lowercased keyword occurs as a contiguous substring of the lowercased location. Nothing
  else is normalised: a keyword with a leading blank does not match the word without it.
  \<open>matches_location "San Francisco, CA" "san francisco"\<close> is true and
  \<open>matches_location "Remote" "Berlin"\<close> is false.
\<close>

theorem matches_location_substring:
  "matches_location location keyword
     = (\<exists>pre suf. lower location = pre @ lower keyword @ suf)
   \<and> matches_location ''San Francisco, CA'' ''san francisco'' = True
   \<and> matches_location ''Remote'' ''Berlin'' = False
   \<and> matches_location ''Remote'' '' remote'' = False"
proof -
  have a: "matches_location location keyword
     = (\<exists>pre suf. lower location = pre @ lower keyword @ suf)"
    by (simp add: matches_location_def py_contains_iff)
  have b: "matches_location ''San Francisco, CA'' ''san francisco'' = True"
    by code_simp
  have c: "matches_location ''Remote'' ''Berlin'' = False"
    by code_simp
  have d: "matches_location ''Remote'' '' remote'' = False"
    by code_simp
  from a b c d show ?thesis by blast
qed

lemma probe_find:
  "probe keys d = (case find (\<lambda>key. map_of d key \<noteq> None) keys of
                     None \<Rightarrow> None | Some key \<Rightarrow> map_of d key)"
  by (induction keys) (auto split: option.splits)

lemma normalize_obj:
  "normalize_response (JObj d) =
       (case find (\<lambda>key. map_of d key \<noteq> None) [''bounties'', ''data'', ''results'', ''items''] of
          Some key \<Rightarrow> ([], the (map_of d key))
        | None \<Rightarrow> ([Log LWarning (UnexpectedStructure (map fst d))], JArr []))"
  unfolding normalize_response.simps probe_find probe_keys_def
  by (auto split: option.splits dest: find_Some_iff[THEN iffD1])

lemma fetch_once_ok: "\<exists>evs v. fetch_once (Response 200 (Inr data)) = (evs, Inr v)"
  by simp

text \<open>
  C4. A decoded 200 body that is a list is returned as it is. For a dict the keys
  \<open>bounties\<close>, \<open>data\<close>, \<open>results\<close>, \<open>items\<close> are tried in this order and the value under the
  first one present is returned; a dict with none of them gives the empty list and one
  warning that lists its keys, and the attempt returns normally. The bodies
  \<open>[{"id":"1"}]\<close> and \<open>{"data":[{"id":"1"}]}\<close> give the same one-element list.
\<close>

theorem normalize_response_shapes:
  "normalize_response (JArr xs) = ([], JArr xs)
   \<and> normalize_response (JObj d) =
       (case find (\<lambda>key. map_of d key \<noteq> None) [''bounties'', ''data'', ''results'', ''items''] of
          Some key \<Rightarrow> ([], the (map_of d key))
        | None \<Rightarrow> ([Log LWarning (UnexpectedStructure (map fst d))], JArr []))
   \<and> fetch_once (Response 200 (Inr (JArr xs))) = ([HttpGet], Inr (JArr xs))
   \<and> fetch_once (Response 200 (Inr (JObj d)))
       = (HttpGet # fst (normalize_response (JObj d)), Inr (snd (normalize_response (JObj d))))
   \<and> snd (fetch_once (Response 200 (Inr (JArr [JObj [(''id'', JStr ''1'')]]))))
       = Inr (JArr [JObj [(''id'', JStr ''1'')]])
   \<and> snd (fetch_once (Response 200 (Inr (JObj [(''data'', JArr [JObj [(''id'', JStr ''1'')]])]))))
       = Inr (JArr [JObj [(''id'', JStr ''1'')]])"
proof -
  have ex: "snd (fetch_once (Response 200 (Inr (JObj [(''data'', JArr [JObj [(''id'', JStr ''1'')]])]))))
       = Inr (JArr [JObj [(''id'', JStr ''1'')]])"
    by (simp add: probe_keys_def)
  show ?thesis
    using normalize_obj[of d] ex by simp
qed

lemma retry_call_unfold:
  "retry_call n http k =
     (case fetch_once (http k) of
        (evs, Inr v) \<Rightarrow> (evs, Inr v)
      | (evs, Inl e) \<Rightarrow>
          if \<not> retry_if_exception_type e then (evs, Inl e)
          else if stop_after_attempt n k then (evs, Inl RetryError)
          else
            (case retry_call n http (Suc k) of
               (evs', r) \<Rightarrow>
                 (evs @ [Log LWarning (Retrying k),
                         Sleep (wait_exponential 1 2 10 k)] @ evs', r)))"
  by (rule retry_call.simps)

lemma retry_call_success:
  "fetch_once (http k) = (evs, Inr v) \<Longrightarrow> retry_call n http k = (evs, Inr v)"
  by (subst retry_call.simps) simp

lemma retry_call_retry:
  "fetch_once (http k) = (evs, Inl e) \<Longrightarrow> retry_if_exception_type e \<Longrightarrow> int k < n \<Longrightarrow>
   retry_call n http k =
     (evs @ [Log LWarning (Retrying k), Sleep (wait_exponential 1 2 10 k)]
          @ fst (retry_call n http (Suc k)), snd (retry_call n http (Suc k)))"
  by (subst retry_call.simps) (simp add: stop_after_attempt_def split: prod.splits)



lemma add_subscription_eq:
  "add_subscription db g k =
     (if (g, k) \<in> set (map snd (subscriptions db)) then (Inr False, db)
      else (Inr True, db\<lparr>subscriptions := subscriptions db @ [(Suc (subscriptions_seq db), g, k)],
                         subscriptions_seq := Suc (subscriptions_seq db)\<rparr>))"
  by (simp add: add_subscription_def insert_subscription_def)

text \<open>
  C5. \<open>add_subscription\<close> returns true exactly when the pair was not in the table, and then
  the pair is a new row: the tenant's keywords are the old ones with the new keyword
  inserted at its place (one more than before), and the other tenants' keywords are the
  same; when the pair was there it returns false and the database is the same (so is the
  number of the tenant's subscriptions). A repeat of the call returns false and changes
  nothing. The check is the table's own \<open>UNIQUE\<close> constraint inside the insert:
  whatever the caller passes, a table without duplicate pairs stays so.
\<close>

lemma sort_snoc: "sort (xs @ [x]) = insort x (sort xs)"
proof -
  have "foldr insort xs (insort x ys) = insort x (foldr insort xs ys)" for ys
    by (induction xs) (simp_all add: insort_left_comm)
  from this[of "[]"] show ?thesis
    by (simp add: sort_key_def)
qed

lemma get_subscriptions_added:
  assumes "(g, k) \<notin> set (map snd (subscriptions db))"
  shows "get_subscriptions (snd (add_subscription db g k)) g' =
           (if g' = g then insort k (get_subscriptions db g) else get_subscriptions db g')"
  using assms by (simp add: add_subscription_eq get_subscriptions_def sort_snoc)

theorem add_subscription_unique:
  "fst (add_subscription db g k) = Inr ((g, k) \<notin> set (map snd (subscriptions db)))
   \<and> ((g, k) \<in> set (map snd (subscriptions db)) \<longrightarrow>
        snd (add_subscription db g k) = db
        \<and> length (get_subscriptions (snd (add_subscription db g k)) g)
            = length (get_subscriptions db g))
   \<and> ((g, k) \<notin> set (map snd (subscriptions db)) \<longrightarrow>
        map snd (subscriptions (snd (add_subscription db g k)))
          = map snd (subscriptions db) @ [(g, k)]
        \<and> get_subscriptions (snd (add_subscription db g k)) g
            = insort k (get_subscriptions db g)
        \<and> set (get_subscriptions (snd (add_subscription db g k)) g)
            = insert k (set (get_subscriptions db g))
        \<and> length (get_subscriptions (snd (add_subscription db g k)) g)
            = Suc (length (get_subscriptions db g))
        \<and> (g' \<noteq> g \<longrightarrow>
              get_subscriptions (snd (add_subscription db g k)) g' = get_subscriptions db g'))
   \<and> (distinct (map snd (subscriptions db)) \<longrightarrow>
        distinct (map snd (subscriptions (snd (add_subscription db g k)))))
   \<and> fst (add_subscription (snd (add_subscription db g k)) g k) = Inr False
   \<and> snd (add_subscription (snd (add_subscription db g k)) g k) = snd (add_subscription db g k)"
proof (intro conjI impI)
  assume a: "(g, k) \<notin> set (map snd (subscriptions db))"
  show "map snd (subscriptions (snd (add_subscription db g k)))
          = map snd (subscriptions db) @ [(g, k)]"
    using a by (simp add: add_subscription_eq)
  show i: "get_subscriptions (snd (add_subscription db g k)) g
            = insort k (get_subscriptions db g)"
    using get_subscriptions_added[OF a, of g] by simp
  show "set (get_subscriptions (snd (add_subscription db g k)) g)
            = insert k (set (get_subscriptions db g))"
    by (simp add: i set_insort_key)
  show "length (get_subscriptions (snd (add_subscription db g k)) g)
            = Suc (length (get_subscriptions db g))"
    by (simp add: i)
  show "get_subscriptions (snd (add_subscription db g k)) g' = get_subscriptions db g'"
    if "g' \<noteq> g"
    using get_subscriptions_added[OF a, of g'] that by simp
qed (auto simp: add_subscription_eq)

theorem add_subscription_unique_witness:
  "fst (add_subscription db_example ''g1'' ''remote'') = Inr False
   \<and> snd (add_subscription db_example ''g1'' ''remote'') = db_example
   \<and> length (get_subscriptions (snd (add_subscription db_example ''g1'' ''remote'')) ''g1'') = 1
   \<and> fst (add_subscription db_example ''g1'' ''berlin'') = Inr True
   \<and> get_subscriptions (snd (add_subscription db_example ''g1'' ''berlin'')) ''g1''
        = [''berlin'', ''remote'']
   \<and> get_subscriptions (snd (add_subscription db_example ''g1'' ''berlin'')) ''g2''
        = [''berlin'']
   \<and> distinct (map snd (subscriptions (snd (add_subscription db_example ''g1'' ''berlin''))))"
proof -
  have in1: "(''g1'', ''remote'') \<in> set (map snd (subscriptions db_example))"
    by (simp add: db_example_def)
  have out1: "(''g1'', ''berlin'') \<notin> set (map snd (subscriptions db_example))"
    by (simp add: db_example_def)
  have d: "distinct (map snd (subscriptions db_example))"
    by (simp add: db_example_def)
  have g: "get_subscriptions db_example ''g1'' = [''remote'']"
    by code_simp
  have g2: "get_subscriptions db_example ''g2'' = [''berlin'']"
    by code_simp
  have i: "insort ''berlin'' [''remote''] = [''berlin'', ''remote'']"
    by code_simp
  have ne: "''g2'' \<noteq> ''g1''"
    by simp
  show ?thesis
    using add_subscription_unique[of db_example "''g1''" "''remote''"]
      add_subscription_unique[of db_example "''g1''" "''berlin''" "''g2''"] in1 out1 d g g2 i ne
    by simp
qed

subsection \<open>Traces of the fan-out\<close>

lemma sends_append [simp]: "sends (xs @ ys) = sends xs @ sends ys"
  by (simp add: sends_def)

lemma sent_ids_append [simp]: "sent_ids R (xs @ ys) = sent_ids R xs @ sent_ids R ys"
  by (simp add: sent_ids_def)

lemma guilds_read_append [simp]: "guilds_read (xs @ ys) = guilds_read xs @ guilds_read ys"
  by (simp add: guilds_read_def)

lemma ids_looked_up_append [simp]:
  "ids_looked_up (xs @ ys) = ids_looked_up xs @ ids_looked_up ys"
  by (simp add: ids_looked_up_def)

lemma sent_ids_Cons [simp]: "sent_ids R (ev # evs) = sent_id R ev @ sent_ids R evs"
  by (simp add: sent_ids_def)

lemma sent_ids_Nil [simp]: "sent_ids R [] = []"
  by (simp add: sent_ids_def)

lemma sent_ids_mem:
  "i \<in> set (sent_ids R evs) \<longleftrightarrow> (\<exists>c b l. Send c b l \<in> set evs \<and> listing_id R b = i)"
proof (induction evs)
  case Nil
  then show ?case by simp
next
  case (Cons ev evs)
  then show ?case by (cases ev) auto
qed

lemma send_bounty_notification_events:
  "\<exists>lg. send_bounty_notification e c b l = [Send c b l, Log (fst lg) (snd lg)]"
  by (cases "sink e c b l") (simp_all add: send_bounty_notification_def)

lemma guild_step_read: "guilds_read (guild_step e db b l (g, c)) = [g]"
  using send_bounty_notification_events[of e c b l]
  by (auto simp: guild_step_def guilds_read_def split: sum.splits)

lemma fanout_reads_all: "guilds_read (fanout e db b l guilds) = map fst guilds"
proof (induction guilds)
  case Nil
  then show ?case by (simp add: guilds_read_def)
next
  case (Cons guild guilds)
  then show ?case by (cases guild) (simp add: guild_step_read)
qed

lemma guild_step_sends:
  "sends (guild_step e db b l (g, c)) =
     (if \<not> store_fails e (GetSubscriptions g)
         \<and> match_keywords l (get_subscriptions db g) = Inr True
      then [Send c b l] else [])"
  using send_bounty_notification_events[of e c b l]
  by (auto simp: guild_step_def sends_def split: sum.splits)

lemma fanout_sends:
  "sends (fanout e db b l guilds) =
     map (\<lambda>guild. Send (snd guild) b l)
       (filter (\<lambda>guild. \<not> store_fails e (GetSubscriptions (fst guild))
                  \<and> match_keywords l (get_subscriptions db (fst guild)) = Inr True) guilds)"
proof (induction guilds)
  case Nil
  then show ?case by (simp add: sends_def)
next
  case (Cons guild guilds)
  then show ?case by (cases guild) (simp add: guild_step_sends)
qed

lemma is_send_mem: "Send c b l \<in> set evs \<longleftrightarrow> Send c b l \<in> set (sends evs)"
  by (auto simp: sends_def)

lemma fanout_send_only: "Send c b' l' \<in> set (fanout e db b l guilds) \<Longrightarrow> b' = b \<and> l' = l"
  by (auto simp: is_send_mem[of c b' l' "fanout e db b l guilds"] fanout_sends)

lemma fanout_sink_irrelevant:
  "sends (fanout (e\<lparr>sink := s\<rparr>) db b l guilds) = sends (fanout e db b l guilds)"
  by (simp add: fanout_sends)

lemma mark_keeps_guilds [simp]:
  "get_all_guilds (mark_bounty_processed t db i) = get_all_guilds db"
  by (simp add: mark_bounty_processed_def get_all_guilds_def)

lemma mark_keeps_subscriptions [simp]:
  "get_subscriptions (mark_bounty_processed t db i) g = get_subscriptions db g"
  by (simp add: mark_bounty_processed_def get_subscriptions_def)

lemma is_processed_iff: "is_bounty_processed db i \<longleftrightarrow> i \<in> set (map fst (processed_bounties db))"
  by (simp add: is_bounty_processed_def map_of_eq_None_iff)

lemma mark_processed_iff:
  "is_bounty_processed (mark_bounty_processed t db i) j \<longleftrightarrow> j = i \<or> is_bounty_processed db j"
  by (auto simp: is_processed_iff mark_bounty_processed_def)

subsection \<open>\<open>process_bounty\<close>, case by case\<close>

lemma process_bounty_no_id:
  "bounty_id R d = [] \<Longrightarrow> process_bounty R e db (JObj d) = (None, db, [Log LWarning MissingId])"
  by (simp add: process_bounty_def)

lemma bounty_id_absent: "map_of d ''id'' = None \<Longrightarrow> bounty_id R d = []"
  by (simp add: bounty_id_def dict_get_def)

lemma process_bounty_seen:
  "bounty_id R d \<noteq> [] \<Longrightarrow> \<not> store_fails e (IsProcessed (bounty_id R d)) \<Longrightarrow>
   is_bounty_processed db (bounty_id R d) \<Longrightarrow>
   process_bounty R e db (JObj d) = (None, db, [Query (IsProcessed (bounty_id R d))])"
  by (simp add: process_bounty_def)

lemma process_bounty_fresh:
  "bounty_id R d \<noteq> [] \<Longrightarrow> \<not> store_fails e (IsProcessed (bounty_id R d)) \<Longrightarrow>
   \<not> is_bounty_processed db (bounty_id R d) \<Longrightarrow>
   \<not> store_fails e (MarkProcessed (bounty_id R d)) \<Longrightarrow> \<not> store_fails e GetAllGuilds \<Longrightarrow>
   process_bounty R e db (JObj d) =
     (None, mark_bounty_processed (current_timestamp e) db (bounty_id R d),
      [Query (IsProcessed (bounty_id R d)), Query (MarkProcessed (bounty_id R d)),
       Query GetAllGuilds]
      @ fanout e (mark_bounty_processed (current_timestamp e) db (bounty_id R d)) (JObj d)
          (dict_get d ''location'' (JStr ''Remote''))
          (get_all_guilds db))"
  by (simp add: process_bounty_def Let_def)

lemma process_bounty_send:
  assumes "Send c b l \<in> set (snd (snd (process_bounty R e db bounty)))"
  shows "\<exists>d. bounty = JObj d \<and> b = bounty \<and> bounty_id R d \<noteq> []
           \<and> \<not> is_bounty_processed db (bounty_id R d)
           \<and> fst (snd (process_bounty R e db bounty))
                = mark_bounty_processed (current_timestamp e) db (bounty_id R d)
           \<and> snd (snd (process_bounty R e db bounty))
                = [Query (IsProcessed (bounty_id R d)), Query (MarkProcessed (bounty_id R d)),
                   Query GetAllGuilds]
                  @ fanout e (mark_bounty_processed (current_timestamp e) db (bounty_id R d))
                      (JObj d) (dict_get d ''location'' (JStr ''Remote'')) (get_all_guilds db)"
proof (cases bounty)
  case (JObj d)
  with assms show ?thesis
    by (auto simp: process_bounty_def Let_def split: if_splits dest: fanout_send_only)
qed (use assms in \<open>simp_all add: process_bounty_def\<close>)

lemma process_bounty_mono:
  "is_bounty_processed db i \<Longrightarrow> is_bounty_processed (fst (snd (process_bounty R e db bounty))) i"
  by (cases bounty) (auto simp: process_bounty_def Let_def mark_processed_iff)

lemma process_bounty_sent_ids:
  assumes "i \<in> set (sent_ids R (snd (snd (process_bounty R e db bounty))))"
  shows "\<not> is_bounty_processed db i \<and> is_bounty_processed (fst (snd (process_bounty R e db bounty))) i"
proof -
  from assms obtain c b l where s: "Send c b l \<in> set (snd (snd (process_bounty R e db bounty)))"
    and i: "listing_id R b = i"
    by (auto simp: sent_ids_mem)
  from process_bounty_send[OF s] i show ?thesis
    by (auto simp: mark_processed_iff)
qed

lemma process_all_mono:
  "is_bounty_processed db i \<Longrightarrow> is_bounty_processed (fst (snd (process_all R envs k db bs))) i"
proof (induction bs arbitrary: k db)
  case Nil
  then show ?case by simp
next
  case (Cons b bs)
  obtain r db' evs where p: "process_bounty R (envs k) db b = (r, db', evs)"
    by (cases "process_bounty R (envs k) db b") auto
  from Cons.prems process_bounty_mono[of db i R "envs k" b] p
  have m: "is_bounty_processed db' i" by simp
  show ?case
  proof (cases r)
    case None
    obtain r2 db2 evs2 where q: "process_all R envs (Suc k) db' bs = (r2, db2, evs2)"
      by (cases "process_all R envs (Suc k) db' bs") auto
    with p None Cons.IH[OF m, of "Suc k"] show ?thesis
      by simp
  next
    case (Some err)
    with p m show ?thesis by simp
  qed
qed

lemma process_all_sent_ids:
  "i \<in> set (sent_ids R (snd (snd (process_all R envs k db bs)))) \<Longrightarrow>
   \<not> is_bounty_processed db i \<and> is_bounty_processed (fst (snd (process_all R envs k db bs))) i"
proof (induction bs arbitrary: k db)
  case Nil
  then show ?case by simp
next
  case (Cons b bs)
  obtain r db' evs where p: "process_bounty R (envs k) db b = (r, db', evs)"
    by (cases "process_bounty R (envs k) db b") auto
  show ?case
  proof (cases r)
    case (Some err)
    with p Cons.prems process_bounty_sent_ids[of i R "envs k" db b] show ?thesis
      by simp
  next
    case None
    obtain r2 db2 evs2 where q: "process_all R envs (Suc k) db' bs = (r2, db2, evs2)"
      by (cases "process_all R envs (Suc k) db' bs") auto
    from Cons.prems p q None have "i \<in> set (sent_ids R evs) \<or> i \<in> set (sent_ids R evs2)"
      by simp
    then show ?thesis
    proof
      assume "i \<in> set (sent_ids R evs)"
      with process_bounty_sent_ids[of i R "envs k" db b] p
      have "\<not> is_bounty_processed db i" "is_bounty_processed db' i" by simp_all
      with process_all_mono[of db' i R envs "Suc k" bs] p q None show ?thesis by simp
    next
      assume "i \<in> set (sent_ids R evs2)"
      with Cons.IH[of "Suc k" db'] q
      have a: "\<not> is_bounty_processed db' i" "is_bounty_processed db2 i" by simp_all
      from a(1) process_bounty_mono[of db i R "envs k" b] p have "\<not> is_bounty_processed db i"
        by auto
      with a(2) p q None show ?thesis by simp
    qed
  qed
qed

subsection \<open>Traces of a poll cycle\<close>

lemma sent_ids_sends: "sends evs = [] \<Longrightarrow> sent_ids R evs = []"
proof (induction evs)
  case Nil
  then show ?case by simp
next
  case (Cons ev evs)
  then show ?case by (cases ev) (auto simp: sends_def split: if_splits)
qed

lemma normalize_response_no_send: "sends (fst (normalize_response v)) = []"
  by (cases v) (auto simp: sends_def split: option.splits)

lemma fetch_once_no_send: "sends (fst (fetch_once out)) = []"
proof (cases out)
  case (Response status body)
  then show ?thesis
    using normalize_response_no_send
    by (cases body) (auto simp: sends_def on_exception_def)
next
  case (Raised e)
  then show ?thesis by (simp add: sends_def on_exception_def)
qed

lemma retry_call_no_send: "sends (fst (retry_call n http k)) = []"
proof (induction n http k rule: retry_call.induct)
  case (1 n http k)
  obtain evs r where f: "fetch_once (http k) = (evs, r)"
    by (cases "fetch_once (http k)") auto
  with fetch_once_no_send[of "http k"] have e: "sends evs = []" by simp
  show ?case
  proof (cases r)
    case (Inr v)
    with f e show ?thesis
      by (subst retry_call.simps) simp
  next
    case (Inl err)
    show ?thesis
    proof (cases "retry_if_exception_type err \<and> \<not> stop_after_attempt n k")
      case False
      with f e Inl show ?thesis
        by (subst retry_call.simps) auto
    next
      case True
      obtain evs' r' where q: "retry_call n http (Suc k) = (evs', r')"
        by (cases "retry_call n http (Suc k)") auto
      from "1.IH"[of evs r err] f Inl True q have "sends evs' = []"
        by simp
      with f e Inl True q show ?thesis
        by (subst retry_call.simps) (simp add: sends_def)
    qed
  qed
qed

lemma fetch_bounties_no_send: "sent_ids R (fst (fetch_bounties n http)) = []"
  by (simp add: fetch_bounties_def sent_ids_sends retry_call_no_send)

lemma poll_cycle_sent_ids:
  assumes "i \<in> set (sent_ids R (snd (poll_cycle R ce db)))"
  shows "\<not> is_bounty_processed db i \<and> is_bounty_processed (fst (poll_cycle R ce db)) i"
proof -
  obtain evs r where f: "fetch_bounties max_retries (http_env ce) = (evs, r)"
    by (cases "fetch_bounties max_retries (http_env ce)") auto
  with fetch_bounties_no_send[of R max_retries "http_env ce"] have e: "sent_ids R evs = []"
    by simp
  show ?thesis
  proof (cases r)
    case (Inl err)
    with assms f e show ?thesis by (simp add: poll_cycle_def)
  next
    case (Inr bounties)
    show ?thesis
    proof (cases "py_iter bounties")
      case (Inl err)
      with assms f e Inr show ?thesis by (simp add: poll_cycle_def)
    next
      case items: (Inr items)
      obtain r2 db2 evs2 where q: "process_all R (listing_env ce) 0 db items = (r2, db2, evs2)"
        by (cases "process_all R (listing_env ce) 0 db items") auto
      from assms f e Inr items q have "i \<in> set (sent_ids R evs2)"
        by (cases r2) (simp_all add: poll_cycle_def)
      with process_all_sent_ids[of i R "listing_env ce" 0 db items] q f Inr items
      show ?thesis by (simp add: poll_cycle_def)
    qed
  qed
qed

lemma poll_cycle_mono:
  assumes "is_bounty_processed db i"
  shows "is_bounty_processed (fst (poll_cycle R ce db)) i"
proof -
  obtain evs r where f: "fetch_bounties max_retries (http_env ce) = (evs, r)"
    by (cases "fetch_bounties max_retries (http_env ce)") auto
  show ?thesis
  proof (cases r)
    case (Inl err)
    with assms f show ?thesis by (simp add: poll_cycle_def)
  next
    case (Inr bounties)
    show ?thesis
    proof (cases "py_iter bounties")
      case (Inl err)
      with assms f Inr show ?thesis by (simp add: poll_cycle_def)
    next
      case items: (Inr items)
      obtain r2 db2 evs2 where q: "process_all R (listing_env ce) 0 db items = (r2, db2, evs2)"
        by (cases "process_all R (listing_env ce) 0 db items") auto
      with process_all_mono[OF assms, of R "listing_env ce" 0 items] f Inr items
      show ?thesis by (simp add: poll_cycle_def)
    qed
  qed
qed

lemma process_bounty_mark_first:
  assumes "Send c b l \<in> set (snd (snd (process_bounty R e db (JObj d))))"
  shows "is_bounty_processed (fst (snd (process_bounty R e db (JObj d)))) (bounty_id R d)
    \<and> (\<exists>post. snd (snd (process_bounty R e db (JObj d)))
           = [Query (IsProcessed (bounty_id R d)), Query (MarkProcessed (bounty_id R d))] @ post
         \<and> Send c b l \<in> set post)"
proof -
  from process_bounty_send[OF assms] obtain d' where
    d: "JObj d = JObj d'" and
    db: "fst (snd (process_bounty R e db (JObj d)))
                = mark_bounty_processed (current_timestamp e) db (bounty_id R d')" and
    ev: "snd (snd (process_bounty R e db (JObj d)))
                = [Query (IsProcessed (bounty_id R d')), Query (MarkProcessed (bounty_id R d')),
                   Query GetAllGuilds]
                  @ fanout e (mark_bounty_processed (current_timestamp e) db (bounty_id R d'))
                      (JObj d') (dict_get d' ''location'' (JStr ''Remote'')) (get_all_guilds db)"
    by blast
  from d have dd: "d' = d" by simp
  from assms ev dd have "Send c b l \<in> set (Query GetAllGuilds
      # fanout e (mark_bounty_processed (current_timestamp e) db (bounty_id R d))
                      (JObj d) (dict_get d ''location'' (JStr ''Remote'')) (get_all_guilds db))"
    by simp
  with db ev dd show ?thesis
    by (simp add: mark_processed_iff)
qed

text \<open>
  C1. For a listing handled by \<open>process_bounty\<close>: without an \<open>id\<close> it is skipped with one
  warning, the database is unchanged and nothing is sent; with an id that is already
  processed it is skipped after the lookup alone, with no log record, no write and no send;
  otherwise every delivery of the call comes after the call of \<open>mark_bounty_processed\<close>, and
  the id is in the processed table when the call ends, whatever became of the deliveries.
  An id that is in the processed table when a poll cycle starts stays there and gets no
  delivery in that cycle, and every id a cycle delivers is in the table when the cycle ends:
  so a later cycle that returns a listing with the same id sends nothing for it.
\<close>

theorem process_bounty_at_most_once:
  "(map_of d ''id'' = None \<longrightarrow>
      process_bounty R e db (JObj d) = (None, db, [Log LWarning MissingId]))
   \<and> (bounty_id R d \<noteq> [] \<and> \<not> store_fails e (IsProcessed (bounty_id R d))
        \<and> is_bounty_processed db (bounty_id R d) \<longrightarrow>
      process_bounty R e db (JObj d) = (None, db, [Query (IsProcessed (bounty_id R d))]))
   \<and> (Send c b l \<in> set (snd (snd (process_bounty R e db (JObj d)))) \<longrightarrow>
      is_bounty_processed (fst (snd (process_bounty R e db (JObj d)))) (bounty_id R d)
      \<and> (\<exists>post. snd (snd (process_bounty R e db (JObj d)))
             = [Query (IsProcessed (bounty_id R d)), Query (MarkProcessed (bounty_id R d))] @ post
           \<and> Send c b l \<in> set post))
   \<and> (bounty_id R d \<noteq> [] \<and> \<not> store_fails e (IsProcessed (bounty_id R d))
        \<and> \<not> store_fails e (MarkProcessed (bounty_id R d)) \<longrightarrow>
      is_bounty_processed (fst (snd (process_bounty R e db (JObj d)))) (bounty_id R d))
   \<and> (i \<in> set (sent_ids R (snd (poll_cycle R ce db))) \<longrightarrow>
      is_bounty_processed (fst (poll_cycle R ce db)) i)
   \<and> (is_bounty_processed db i \<longrightarrow>
      is_bounty_processed (fst (poll_cycle R ce db)) i
      \<and> i \<notin> set (sent_ids R (snd (poll_cycle R ce db))))"
proof (intro conjI impI)
  assume "map_of d ''id'' = None"
  then show "process_bounty R e db (JObj d) = (None, db, [Log LWarning MissingId])"
    by (simp add: process_bounty_no_id bounty_id_absent)
next
  assume "bounty_id R d \<noteq> [] \<and> \<not> store_fails e (IsProcessed (bounty_id R d))
        \<and> is_bounty_processed db (bounty_id R d)"
  then show "process_bounty R e db (JObj d) = (None, db, [Query (IsProcessed (bounty_id R d))])"
    by (simp add: process_bounty_seen)
next
  assume s: "Send c b l \<in> set (snd (snd (process_bounty R e db (JObj d))))"
  from process_bounty_mark_first[OF s]
  show "is_bounty_processed (fst (snd (process_bounty R e db (JObj d)))) (bounty_id R d)"
    by blast
  from process_bounty_mark_first[OF s]
  show "\<exists>post. snd (snd (process_bounty R e db (JObj d)))
             = [Query (IsProcessed (bounty_id R d)), Query (MarkProcessed (bounty_id R d))] @ post
           \<and> Send c b l \<in> set post"
    by blast
next
  assume "bounty_id R d \<noteq> [] \<and> \<not> store_fails e (IsProcessed (bounty_id R d))
        \<and> \<not> store_fails e (MarkProcessed (bounty_id R d))"
  then show "is_bounty_processed (fst (snd (process_bounty R e db (JObj d)))) (bounty_id R d)"
    by (auto simp: process_bounty_def Let_def mark_processed_iff)
next
  assume "i \<in> set (sent_ids R (snd (poll_cycle R ce db)))"
  then show "is_bounty_processed (fst (poll_cycle R ce db)) i"
    using poll_cycle_sent_ids by blast
next
  assume p: "is_bounty_processed db i"
  then show "is_bounty_processed (fst (poll_cycle R ce db)) i"
    by (rule poll_cycle_mono)
  from p show "i \<notin> set (sent_ids R (snd (poll_cycle R ce db)))"
    using poll_cycle_sent_ids by blast
qed

theorem process_bounty_at_most_once_witness:
  "process_bounty repr_example env_ok db_example (JObj [(''title'', JStr ''Job'')])
     = (None, db_example, [Log LWarning MissingId])
   \<and> process_bounty repr_example env_ok db_example (JObj [(''id'', JStr ''7'')])
     = (None, db_example, [Query (IsProcessed ''7'')])
   \<and> is_bounty_processed
        (fst (snd (process_bounty repr_example env_ok db_example (JObj listing_remote)))) ''1''
   \<and> is_bounty_processed
        (fst (snd (process_bounty repr_example env_bad db_example (JObj listing_remote)))) ''1''
   \<and> is_bounty_processed (fst (poll_cycle repr_example ce_example db_example)) ''2''
   \<and> is_bounty_processed (fst (poll_cycle repr_example ce_example db_example)) ''7''
   \<and> ''7'' \<notin> set (sent_ids repr_example (snd (poll_cycle repr_example ce_example db_example)))"
proof -
  have h1: "map_of [(''title'', JStr ''Job'')] ''id'' = None"
    by simp
  have h2: "bounty_id repr_example [(''id'', JStr ''7'')] \<noteq> []
      \<and> \<not> store_fails env_ok (IsProcessed (bounty_id repr_example [(''id'', JStr ''7'')]))
      \<and> is_bounty_processed db_example (bounty_id repr_example [(''id'', JStr ''7'')])"
    by code_simp
  have v2: "bounty_id repr_example [(''id'', JStr ''7'')] = ''7''"
    by code_simp
  have h3: "Send ''100'' (JObj listing_remote) (JStr ''Remote'')
      \<in> set (snd (snd (process_bounty repr_example env_ok db_example (JObj listing_remote))))"
    by code_simp
  have v3: "bounty_id repr_example listing_remote = ''1''"
    by code_simp
  have h4: "bounty_id repr_example listing_remote \<noteq> []
      \<and> \<not> store_fails env_bad (IsProcessed (bounty_id repr_example listing_remote))
      \<and> \<not> store_fails env_bad (MarkProcessed (bounty_id repr_example listing_remote))"
    by code_simp
  have h5: "''2'' \<in> set (sent_ids repr_example (snd (poll_cycle repr_example ce_example db_example)))"
    by code_simp
  have h6: "is_bounty_processed db_example ''7''"
    by code_simp
  show ?thesis
    using process_bounty_at_most_once[where d = "[(''title'', JStr ''Job'')]"
        and R = repr_example and e = env_ok and db = db_example]
      process_bounty_at_most_once[where d = "[(''id'', JStr ''7'')]"
        and R = repr_example and e = env_ok and db = db_example]
      process_bounty_at_most_once[where d = listing_remote
        and R = repr_example and e = env_ok and db = db_example and c = "''100''"
        and b = "JObj listing_remote" and l = "JStr ''Remote''"]
      process_bounty_at_most_once[where d = listing_remote
        and R = repr_example and e = env_bad and db = db_example]
      process_bounty_at_most_once[where R = repr_example and ce = ce_example
        and db = db_example and i = "''2''"]
      process_bounty_at_most_once[where R = repr_example and ce = ce_example
        and db = db_example and i = "''7''"]
      h1 h2 v2 h3 v3 h4 h5 h6
    by simp
qed

lemma mark_twice:
  "mark_bounty_processed t2 (mark_bounty_processed t1 db i) i = mark_bounty_processed t1 db i"
  by (simp add: mark_bounty_processed_def)

lemma count_list_one: "distinct xs \<Longrightarrow> x \<in> set xs \<Longrightarrow> count_list xs x = 1"
  by (induction xs) (auto simp: count_list_0_iff)

lemma mark_distinct:
  "distinct (map fst (processed_bounties db)) \<Longrightarrow>
   distinct (map fst (processed_bounties (mark_bounty_processed t db i)))"
  by (simp add: mark_bounty_processed_def)

lemma mark_member: "i \<in> set (map fst (processed_bounties (mark_bounty_processed t db i)))"
  by (simp add: mark_bounty_processed_def)

lemma process_bounty_processed:
  assumes "bounty_id R d = i" "is_bounty_processed db i"
  shows "fst (snd (process_bounty R e db (JObj d))) = db"
    and "sends (snd (snd (process_bounty R e db (JObj d)))) = []"
  using assms by (auto simp: process_bounty_def Let_def sends_def)

text \<open>
  C8. \<open>mark_bounty_processed\<close> is idempotent: a second call with the same id (at any later
  time) returns the database of the first call, raising nothing; the id is then in the
  processed table, and exactly once when the ids of the table were distinct before. A
  listing with that id that is processed afterwards leaves the database as it is and sends
  nothing.
\<close>

theorem mark_bounty_processed_idempotent:
  "mark_bounty_processed t2 (mark_bounty_processed t1 db i) i = mark_bounty_processed t1 db i
   \<and> is_bounty_processed (mark_bounty_processed t1 db i) i
   \<and> (distinct (map fst (processed_bounties db)) \<longrightarrow>
        count_list
          (map fst (processed_bounties (mark_bounty_processed t2 (mark_bounty_processed t1 db i) i)))
          i = 1)
   \<and> (bounty_id R d = i \<longrightarrow>
        sends (snd (snd (process_bounty R e
                 (mark_bounty_processed t2 (mark_bounty_processed t1 db i) i) (JObj d)))) = []
        \<and> fst (snd (process_bounty R e
                 (mark_bounty_processed t2 (mark_bounty_processed t1 db i) i) (JObj d)))
            = mark_bounty_processed t1 db i)"
proof -
  have m: "is_bounty_processed (mark_bounty_processed t1 db i) i"
    by (simp add: mark_processed_iff)
  show ?thesis
    using mark_twice[of t2 t1 db i] m
      count_list_one[OF mark_distinct[of db t1 i] mark_member[of i t1 db]]
      process_bounty_processed[of R d i "mark_bounty_processed t1 db i" e]
    by simp
qed

theorem mark_bounty_processed_idempotent_witness:
  "mark_bounty_processed 9 (mark_bounty_processed 5 db_example ''1'') ''1''
     = mark_bounty_processed 5 db_example ''1''
   \<and> count_list
        (map fst (processed_bounties
           (mark_bounty_processed 9 (mark_bounty_processed 5 db_example ''1'') ''1''))) ''1'' = 1
   \<and> sends (snd (snd (process_bounty repr_example env_ok
              (mark_bounty_processed 9 (mark_bounty_processed 5 db_example ''1'') ''1'')
              (JObj listing_remote)))) = []
   \<and> sends (snd (snd (process_bounty repr_example env_ok db_example (JObj listing_remote))))
       = [Send ''100'' (JObj listing_remote) (JStr ''Remote'')]"
proof -
  have h1: "distinct (map fst (processed_bounties db_example))"
    by code_simp
  have h2: "bounty_id repr_example listing_remote = ''1''"
    by code_simp
  have f: "sends (snd (snd (process_bounty repr_example env_ok db_example (JObj listing_remote))))
       = [Send ''100'' (JObj listing_remote) (JStr ''Remote'')]"
    by code_simp
  show ?thesis
    using mark_bounty_processed_idempotent[where db = db_example and i = "''1''" and ?t1.0 = 5
        and ?t2.0 = 9 and R = repr_example and d = listing_remote and e = env_ok] h1 h2 f
    by blast
qed

lemma send_bounty_notification_failed:
  "sink e c b l = Failed \<longrightarrow> send_bounty_notification e c b l = [Send c b l, Log LError SendFailed]"
  by (simp add: send_bounty_notification_def)

lemma guild_step_no_lookup: "ids_looked_up (guild_step e db b l guild) = []"
  using send_bounty_notification_events[of e "snd guild" b l]
  by (cases guild) (auto simp: guild_step_def ids_looked_up_def split: sum.splits)

lemma ids_looked_up_Nil [simp]: "ids_looked_up [] = []"
  by (simp add: ids_looked_up_def)

lemma fanout_no_lookup: "ids_looked_up (fanout e db b l guilds) = []"
  by (induction guilds) (simp_all add: guild_step_no_lookup)

lemma process_bounty_returns:
  assumes "\<And>c. store_fails e c \<Longrightarrow> \<exists>g. c = GetSubscriptions g"
  shows "fst (process_bounty R e db (JObj d)) = None
    \<and> ids_looked_up (snd (snd (process_bounty R e db (JObj d))))
        = (if bounty_id R d = [] then [] else [bounty_id R d])"
proof -
  have a: "\<not> store_fails e (IsProcessed (bounty_id R d))"
    "\<not> store_fails e (MarkProcessed (bounty_id R d))" "\<not> store_fails e GetAllGuilds"
    using assms by blast+
  then show ?thesis
    using fanout_no_lookup
    by (auto simp: process_bounty_def Let_def ids_looked_up_def)
qed

lemma process_all_returns:
  assumes "\<And>k c. store_fails (envs k) c \<Longrightarrow> \<exists>g. c = GetSubscriptions g"
  shows "list_all is_dict bs \<Longrightarrow>
    fst (process_all R envs k db bs) = None
    \<and> ids_looked_up (snd (snd (process_all R envs k db bs)))
        = filter (\<lambda>i. i \<noteq> []) (map (listing_id R) bs)"
proof (induction bs arbitrary: k db)
  case Nil
  then show ?case by simp
next
  case (Cons b bs)
  then obtain d where b: "b = JObj d" by (cases b) auto
  obtain r db' evs where p: "process_bounty R (envs k) db (JObj d) = (r, db', evs)"
    by (cases "process_bounty R (envs k) db (JObj d)") auto
  from process_bounty_returns[of "envs k" R db d] assms p
  have r: "r = None" and l: "ids_looked_up evs = (if bounty_id R d = [] then [] else [bounty_id R d])"
    by auto
  obtain r2 db2 evs2 where q: "process_all R envs (Suc k) db' bs = (r2, db2, evs2)"
    by (cases "process_all R envs (Suc k) db' bs") auto
  from Cons.IH[of "Suc k" db'] Cons.prems q
  have "r2 = None" "ids_looked_up evs2 = filter (\<lambda>i. i \<noteq> []) (map (listing_id R) bs)"
    by auto
  with b p q r l show ?case by simp
qed

lemma fanout_delivers:
  assumes "(g, c) \<in> set guilds" "\<not> store_fails e (GetSubscriptions g)"
    "match_keywords l (get_subscriptions db g) = Inr True"
  shows "Send c b l \<in> set (fanout e db b l guilds)"
proof -
  from assms have "Send c b l \<in> set (sends (fanout e db b l guilds))"
    by (force simp: fanout_sends)
  then show ?thesis by (simp add: sends_def)
qed

lemma process_bounty_frame:
  "get_all_guilds (fst (snd (process_bounty R e db b))) = get_all_guilds db
   \<and> get_subscriptions (fst (snd (process_bounty R e db b))) g = get_subscriptions db g
   \<and> (is_bounty_processed (fst (snd (process_bounty R e db b))) i \<longrightarrow>
        i = listing_id R b \<or> is_bounty_processed db i)"
  by (cases b) (auto simp: process_bounty_def Let_def mark_processed_iff)

lemma process_bounty_whole:
  assumes "\<And>call. store_fails e call \<Longrightarrow> \<exists>g. call = GetSubscriptions g"
    and "bounty_id R d \<noteq> []" "\<not> is_bounty_processed db (bounty_id R d)"
  shows "process_bounty R e db (JObj d) =
     (None, mark_bounty_processed (current_timestamp e) db (bounty_id R d),
      [Query (IsProcessed (bounty_id R d)), Query (MarkProcessed (bounty_id R d)),
       Query GetAllGuilds]
      @ fanout e (mark_bounty_processed (current_timestamp e) db (bounty_id R d)) (JObj d)
          (dict_get d ''location'' (JStr ''Remote''))
          (get_all_guilds db))"
proof -
  have "\<not> store_fails e (IsProcessed (bounty_id R d))"
    "\<not> store_fails e (MarkProcessed (bounty_id R d))" "\<not> store_fails e GetAllGuilds"
    using assms(1) by blast+
  with assms(2,3) show ?thesis
    by (simp add: process_bounty_fresh)
qed

lemma process_all_Cons_ok:
  assumes "fst (process_bounty R (envs k) db b) = None"
  shows "process_all R envs k db (b # bs) =
     (fst (process_all R envs (Suc k) (fst (snd (process_bounty R (envs k) db b))) bs),
      fst (snd (process_all R envs (Suc k) (fst (snd (process_bounty R (envs k) db b))) bs)),
      snd (snd (process_bounty R (envs k) db b))
        @ snd (snd (process_all R envs (Suc k) (fst (snd (process_bounty R (envs k) db b))) bs)))"
  using assms
  by (cases "process_bounty R (envs k) db b") (simp split: prod.splits)

lemma process_all_reaches:
  assumes H: "\<And>k call. store_fails (envs k) call \<Longrightarrow> \<exists>g. call = GetSubscriptions g"
  shows "list_all is_dict bs \<Longrightarrow> j < length bs \<Longrightarrow> bs ! j = JObj d \<Longrightarrow>
    bounty_id R d \<noteq> [] \<Longrightarrow> \<not> is_bounty_processed db (bounty_id R d) \<Longrightarrow>
    bounty_id R d \<notin> set (map (listing_id R) (take j bs)) \<Longrightarrow>
    is_bounty_processed (fst (snd (process_all R envs k0 db bs))) (bounty_id R d)
    \<and> ((g, c) \<in> set (get_all_guilds db)
         \<and> \<not> store_fails (envs (k0 + j)) (GetSubscriptions g)
         \<and> match_keywords (dict_get d ''location'' (JStr ''Remote'')) (get_subscriptions db g)
             = Inr True \<longrightarrow>
       Send c (JObj d) (dict_get d ''location'' (JStr ''Remote''))
         \<in> set (snd (snd (process_all R envs k0 db bs))))"
proof (induction bs arbitrary: j k0 db)
  case Nil
  then show ?case by simp
next
  case (Cons b bs)
  from Cons.prems(1) obtain d0 where b: "b = JObj d0" by (cases b) auto
  have ok: "fst (process_bounty R (envs k0) db b) = None"
    using process_bounty_returns[of "envs k0" R db d0] H b by blast
  note step = process_all_Cons_ok[of R envs k0 db b bs, OF ok]
  let ?db1 = "fst (snd (process_bounty R (envs k0) db b))"
  have ev: "snd (snd (process_all R envs k0 db (b # bs)))
      = snd (snd (process_bounty R (envs k0) db b))
        @ snd (snd (process_all R envs (Suc k0) ?db1 bs))"
    by (subst step) simp
  have dq: "fst (snd (process_all R envs k0 db (b # bs)))
      = fst (snd (process_all R envs (Suc k0) ?db1 bs))"
    by (subst step) simp
  show ?case
  proof (cases j)
    case 0
    with Cons.prems b have d0: "d0 = d" by simp
    have w: "process_bounty R (envs k0) db (JObj d) =
       (None, mark_bounty_processed (current_timestamp (envs k0)) db (bounty_id R d),
        [Query (IsProcessed (bounty_id R d)), Query (MarkProcessed (bounty_id R d)),
         Query GetAllGuilds]
        @ fanout (envs k0) (mark_bounty_processed (current_timestamp (envs k0)) db (bounty_id R d))
            (JObj d) (dict_get d ''location'' (JStr ''Remote'')) (get_all_guilds db))"
      using process_bounty_whole[of "envs k0" R d db] H Cons.prems(4,5) by blast
    have m: "is_bounty_processed ?db1 (bounty_id R d)"
      using w b d0 by (simp add: mark_processed_iff)
    have p: "is_bounty_processed (fst (snd (process_all R envs k0 db (b # bs)))) (bounty_id R d)"
      using process_all_mono[OF m, of R envs "Suc k0" bs] by (simp only: dq)
    have s: "Send c (JObj d) (dict_get d ''location'' (JStr ''Remote''))
         \<in> set (snd (snd (process_all R envs k0 db (b # bs))))"
      if t: "(g, c) \<in> set (get_all_guilds db)"
        "\<not> store_fails (envs k0) (GetSubscriptions g)"
        "match_keywords (dict_get d ''location'' (JStr ''Remote'')) (get_subscriptions db g)
           = Inr True"
    proof -
      from t have "Send c (JObj d) (dict_get d ''location'' (JStr ''Remote''))
          \<in> set (fanout (envs k0)
                  (mark_bounty_processed (current_timestamp (envs k0)) db (bounty_id R d))
                  (JObj d) (dict_get d ''location'' (JStr ''Remote'')) (get_all_guilds db))"
        by (intro fanout_delivers[of g]) simp_all
      with w b d0 have "Send c (JObj d) (dict_get d ''location'' (JStr ''Remote''))
          \<in> set (snd (snd (process_bounty R (envs k0) db b)))"
        by simp
      then show ?thesis
        by (simp only: ev set_append Un_iff) simp
    qed
    from p s 0 show ?thesis by simp
  next
    case (Suc j')
    from process_bounty_frame[of R "envs k0" db b g "bounty_id R d"]
    have fr: "get_all_guilds ?db1 = get_all_guilds db"
      "get_subscriptions ?db1 g = get_subscriptions db g"
      "is_bounty_processed ?db1 (bounty_id R d) \<longrightarrow>
         bounty_id R d = listing_id R b \<or> is_bounty_processed db (bounty_id R d)"
      by blast+
    from Cons.prems(6) Suc have ne: "bounty_id R d \<noteq> listing_id R b"
      and rest: "bounty_id R d \<notin> set (map (listing_id R) (take j' bs))"
      by auto
    from fr(3) ne Cons.prems(5) have fresh: "\<not> is_bounty_processed ?db1 (bounty_id R d)"
      by blast
    from Cons.prems Suc have pre: "list_all is_dict bs" "j' < length bs" "bs ! j' = JObj d"
      by simp_all
    from Cons.IH[OF pre Cons.prems(4) fresh rest, of "Suc k0"] fr(1,2) Suc
    show ?thesis
      by (simp add: ev dq del: process_all.simps)
  qed
qed

text \<open>
  C6. In the fan-out of one listing the subscriptions of every tenant are read, in the order
  of the tenants, whatever fails on the way. A failed read is logged for that tenant alone;
  a failed delivery is logged inside \<open>send_bounty_notification\<close>; what the deliveries meet
  does not change which deliveries are made; a tenant whose read succeeds and whose keyword
  matches gets its delivery. When the only database failures of a batch are failed reads of
  subscriptions (and its listings are dicts), no exception leaves the loop over the batch,
  and every listing with an id is looked up, in order. Under the same failures a listing
  with a new id is processed in full: \<open>process_bounty\<close> marks it and runs the fan-out over
  all tenants; and wherever it stands in the batch (at the first place its id occurs) it is
  in the processed table when the loop ends and each tenant whose read succeeds and whose
  keyword matches has got its delivery, whatever failed for the listings and tenants before.
\<close>

theorem tenant_failures_are_isolated:
  "guilds_read (fanout e db b l guilds) = map fst guilds
   \<and> sends (fanout (e\<lparr>sink := s\<rparr>) db b l guilds) = sends (fanout e db b l guilds)
   \<and> (store_fails e (GetSubscriptions g) \<longrightarrow>
        guild_step e db b l (g, c)
          = [Query (GetSubscriptions g), Log LError (GuildError g OperationalError)])
   \<and> (sink e c b l = Failed \<longrightarrow>
        send_bounty_notification e c b l = [Send c b l, Log LError SendFailed])
   \<and> ((g, c) \<in> set guilds \<and> \<not> store_fails e (GetSubscriptions g)
        \<and> match_keywords l (get_subscriptions db g) = Inr True \<longrightarrow>
        Send c b l \<in> set (fanout e db b l guilds))
   \<and> (list_all is_dict bs \<and> (\<forall>k call. store_fails (envs k) call \<longrightarrow> (\<exists>g. call = GetSubscriptions g))
        \<longrightarrow>
        fst (process_all R envs k0 db bs) = None
        \<and> ids_looked_up (snd (snd (process_all R envs k0 db bs)))
            = filter (\<lambda>i. i \<noteq> []) (map (listing_id R) bs))
   \<and> ((\<forall>call. store_fails e call \<longrightarrow> (\<exists>g. call = GetSubscriptions g))
        \<and> bounty_id R d \<noteq> [] \<and> \<not> is_bounty_processed db (bounty_id R d) \<longrightarrow>
        process_bounty R e db (JObj d) =
          (None, mark_bounty_processed (current_timestamp e) db (bounty_id R d),
           [Query (IsProcessed (bounty_id R d)), Query (MarkProcessed (bounty_id R d)),
            Query GetAllGuilds]
           @ fanout e (mark_bounty_processed (current_timestamp e) db (bounty_id R d)) (JObj d)
               (dict_get d ''location'' (JStr ''Remote'')) (get_all_guilds db)))
   \<and> (list_all is_dict bs \<and> (\<forall>k call. store_fails (envs k) call \<longrightarrow> (\<exists>g. call = GetSubscriptions g))
        \<and> j < length bs \<and> bs ! j = JObj d
        \<and> bounty_id R d \<noteq> [] \<and> \<not> is_bounty_processed db (bounty_id R d)
        \<and> bounty_id R d \<notin> set (map (listing_id R) (take j bs)) \<longrightarrow>
        is_bounty_processed (fst (snd (process_all R envs k0 db bs))) (bounty_id R d)
        \<and> ((tg, tc) \<in> set (get_all_guilds db)
             \<and> \<not> store_fails (envs (k0 + j)) (GetSubscriptions tg)
             \<and> match_keywords (dict_get d ''location'' (JStr ''Remote''))
                   (get_subscriptions db tg) = Inr True \<longrightarrow>
           Send tc (JObj d) (dict_get d ''location'' (JStr ''Remote''))
             \<in> set (snd (snd (process_all R envs k0 db bs)))))"
proof (intro conjI)
  show "guilds_read (fanout e db b l guilds) = map fst guilds"
    by (rule fanout_reads_all)
  show "sends (fanout (e\<lparr>sink := s\<rparr>) db b l guilds) = sends (fanout e db b l guilds)"
    by (rule fanout_sink_irrelevant)
  show "store_fails e (GetSubscriptions g) \<longrightarrow>
        guild_step e db b l (g, c)
          = [Query (GetSubscriptions g), Log LError (GuildError g OperationalError)]"
    by (simp add: guild_step_def)
  show "sink e c b l = Failed \<longrightarrow>
        send_bounty_notification e c b l = [Send c b l, Log LError SendFailed]"
    by (rule send_bounty_notification_failed)
  show "(g, c) \<in> set guilds \<and> \<not> store_fails e (GetSubscriptions g)
        \<and> match_keywords l (get_subscriptions db g) = Inr True \<longrightarrow>
        Send c b l \<in> set (fanout e db b l guilds)"
    using fanout_delivers by blast
  show "list_all is_dict bs \<and> (\<forall>k call. store_fails (envs k) call \<longrightarrow> (\<exists>g. call = GetSubscriptions g))
        \<longrightarrow>
        fst (process_all R envs k0 db bs) = None
        \<and> ids_looked_up (snd (snd (process_all R envs k0 db bs)))
            = filter (\<lambda>i. i \<noteq> []) (map (listing_id R) bs)"
    using process_all_returns[of envs bs R k0 db] by blast
  show "(\<forall>call. store_fails e call \<longrightarrow> (\<exists>g. call = GetSubscriptions g))
        \<and> bounty_id R d \<noteq> [] \<and> \<not> is_bounty_processed db (bounty_id R d) \<longrightarrow>
        process_bounty R e db (JObj d) =
          (None, mark_bounty_processed (current_timestamp e) db (bounty_id R d),
           [Query (IsProcessed (bounty_id R d)), Query (MarkProcessed (bounty_id R d)),
            Query GetAllGuilds]
           @ fanout e (mark_bounty_processed (current_timestamp e) db (bounty_id R d)) (JObj d)
               (dict_get d ''location'' (JStr ''Remote'')) (get_all_guilds db))"
    using process_bounty_whole[of e R d db] by blast
  show "list_all is_dict bs \<and> (\<forall>k call. store_fails (envs k) call \<longrightarrow> (\<exists>g. call = GetSubscriptions g))
        \<and> j < length bs \<and> bs ! j = JObj d
        \<and> bounty_id R d \<noteq> [] \<and> \<not> is_bounty_processed db (bounty_id R d)
        \<and> bounty_id R d \<notin> set (map (listing_id R) (take j bs)) \<longrightarrow>
        is_bounty_processed (fst (snd (process_all R envs k0 db bs))) (bounty_id R d)
        \<and> ((tg, tc) \<in> set (get_all_guilds db)
             \<and> \<not> store_fails (envs (k0 + j)) (GetSubscriptions tg)
             \<and> match_keywords (dict_get d ''location'' (JStr ''Remote''))
                   (get_subscriptions db tg) = Inr True \<longrightarrow>
           Send tc (JObj d) (dict_get d ''location'' (JStr ''Remote''))
             \<in> set (snd (snd (process_all R envs k0 db bs))))"
    using process_all_reaches[where envs = envs and bs = bs and j = j and d = d and R = R
        and db = db and g = tg and c = tc and ?k0.0 = k0]
    by blast
qed

theorem tenant_failures_are_isolated_witness:
  "guilds_read (fanout env_bad db_example (JObj listing_remote) (JStr ''Berlin'')
       (get_all_guilds db_example)) = [''g1'', ''g2'']
   \<and> guild_step env_bad db_example (JObj listing_remote) (JStr ''Berlin'') (''g1'', ''100'')
       = [Query (GetSubscriptions ''g1''), Log LError (GuildError ''g1'' OperationalError)]
   \<and> send_bounty_notification (env_bad\<lparr>sink := (\<lambda>c b l. Failed)\<rparr>) ''200'' (JObj listing_remote)
         (JStr ''Berlin'')
       = [Send ''200'' (JObj listing_remote) (JStr ''Berlin''), Log LError SendFailed]
   \<and> Send ''200'' (JObj listing_remote) (JStr ''Berlin'')
       \<in> set (fanout env_bad db_example (JObj listing_remote) (JStr ''Berlin'')
               (get_all_guilds db_example))
   \<and> fst (process_all repr_example (listing_env ce_example) 0 db_example
            [JObj listing_remote, JObj [], JObj listing_berlin]) = None
   \<and> ids_looked_up (snd (snd (process_all repr_example (listing_env ce_example) 0 db_example
            [JObj listing_remote, JObj [], JObj listing_berlin]))) = [''1'', ''2'']
   \<and> fst (snd (process_bounty repr_example env_bad db_example (JObj listing_remote)))
       = mark_bounty_processed 1 db_example ''1''
   \<and> is_bounty_processed
        (fst (snd (process_all repr_example (listing_env ce_example) 0 db_example
            [JObj listing_remote, JObj [], JObj listing_berlin]))) ''2''
   \<and> Send ''200'' (JObj listing_berlin) (JStr ''Berlin, Germany'')
       \<in> set (snd (snd (process_all repr_example (listing_env ce_example) 0 db_example
            [JObj listing_remote, JObj [], JObj listing_berlin])))"
proof -
  have h1: "store_fails env_bad (GetSubscriptions ''g1'')"
    by code_simp
  have h2: "sink (env_bad\<lparr>sink := (\<lambda>c b l. Failed)\<rparr>) ''200'' (JObj listing_remote) (JStr ''Berlin'')
      = Failed"
    by simp
  have h3: "(''g2'', ''200'') \<in> set (get_all_guilds db_example)
      \<and> \<not> store_fails env_bad (GetSubscriptions ''g2'')
      \<and> match_keywords (JStr ''Berlin'') (get_subscriptions db_example ''g2'') = Inr True"
    by code_simp
  have h4: "list_all is_dict [JObj listing_remote, JObj [], JObj listing_berlin]"
    by simp
  have h5: "\<forall>k call. store_fails (listing_env ce_example k) call \<longrightarrow> (\<exists>g. call = GetSubscriptions g)"
    by (simp add: ce_example_def env_bad_def env_ok_def)
  have v1: "map fst (get_all_guilds db_example) = [''g1'', ''g2'']"
    by code_simp
  have v2: "filter (\<lambda>i. i \<noteq> [])
      (map (listing_id repr_example) [JObj listing_remote, JObj [], JObj listing_berlin])
      = [''1'', ''2'']"
    by code_simp
  let ?bs = "[JObj listing_remote, JObj [], JObj listing_berlin]"
  have h6: "\<forall>call. store_fails env_bad call \<longrightarrow> (\<exists>g. call = GetSubscriptions g)"
    by (simp add: env_bad_def)
  have h7: "bounty_id repr_example listing_remote \<noteq> []
      \<and> \<not> is_bounty_processed db_example (bounty_id repr_example listing_remote)"
    by code_simp
  have v3: "bounty_id repr_example listing_remote = ''1''" "current_timestamp env_bad = 1"
    by code_simp+
  have h8: "2 < length ?bs \<and> ?bs ! 2 = JObj listing_berlin
      \<and> bounty_id repr_example listing_berlin \<noteq> []
      \<and> \<not> is_bounty_processed db_example (bounty_id repr_example listing_berlin)
      \<and> bounty_id repr_example listing_berlin \<notin> set (map (listing_id repr_example) (take 2 ?bs))"
    by code_simp
  have h9: "(''g2'', ''200'') \<in> set (get_all_guilds db_example)
      \<and> \<not> store_fails (listing_env ce_example (0 + 2)) (GetSubscriptions ''g2'')
      \<and> match_keywords (dict_get listing_berlin ''location'' (JStr ''Remote''))
            (get_subscriptions db_example ''g2'') = Inr True"
    by code_simp
  have v4: "bounty_id repr_example listing_berlin = ''2''"
    "dict_get listing_berlin ''location'' (JStr ''Remote'') = JStr ''Berlin, Germany''"
    by code_simp+
  from tenant_failures_are_isolated[where e = env_bad and R = repr_example
      and d = listing_remote and db = db_example] h6 h7
  have "process_bounty repr_example env_bad db_example (JObj listing_remote) =
          (None, mark_bounty_processed (current_timestamp env_bad) db_example
                   (bounty_id repr_example listing_remote),
           [Query (IsProcessed (bounty_id repr_example listing_remote)),
            Query (MarkProcessed (bounty_id repr_example listing_remote)), Query GetAllGuilds]
           @ fanout env_bad
               (mark_bounty_processed (current_timestamp env_bad) db_example
                  (bounty_id repr_example listing_remote))
               (JObj listing_remote)
               (dict_get listing_remote ''location'' (JStr ''Remote''))
               (get_all_guilds db_example))"
    by blast
  then have n1: "fst (snd (process_bounty repr_example env_bad db_example (JObj listing_remote)))
       = mark_bounty_processed 1 db_example ''1''"
    by (simp add: v3)
  from tenant_failures_are_isolated[where bs = ?bs and envs = "listing_env ce_example"
      and R = repr_example and ?k0.0 = 0 and db = db_example and j = 2 and d = listing_berlin
      and tg = "''g2''" and tc = "''200''"] h4 h5 h8 h9
  have "is_bounty_processed
        (fst (snd (process_all repr_example (listing_env ce_example) 0 db_example ?bs)))
        (bounty_id repr_example listing_berlin)
      \<and> Send ''200'' (JObj listing_berlin)
            (dict_get listing_berlin ''location'' (JStr ''Remote''))
          \<in> set (snd (snd (process_all repr_example (listing_env ce_example) 0 db_example ?bs)))"
    by blast
  then have n2: "is_bounty_processed
        (fst (snd (process_all repr_example (listing_env ce_example) 0 db_example ?bs))) ''2''
      \<and> Send ''200'' (JObj listing_berlin) (JStr ''Berlin, Germany'')
          \<in> set (snd (snd (process_all repr_example (listing_env ce_example) 0 db_example ?bs)))"
    by (simp only: v4)
  have old: "guilds_read (fanout env_bad db_example (JObj listing_remote) (JStr ''Berlin'')
       (get_all_guilds db_example)) = [''g1'', ''g2'']
   \<and> guild_step env_bad db_example (JObj listing_remote) (JStr ''Berlin'') (''g1'', ''100'')
       = [Query (GetSubscriptions ''g1''), Log LError (GuildError ''g1'' OperationalError)]
   \<and> send_bounty_notification (env_bad\<lparr>sink := (\<lambda>c b l. Failed)\<rparr>) ''200'' (JObj listing_remote)
         (JStr ''Berlin'')
       = [Send ''200'' (JObj listing_remote) (JStr ''Berlin''), Log LError SendFailed]
   \<and> Send ''200'' (JObj listing_remote) (JStr ''Berlin'')
       \<in> set (fanout env_bad db_example (JObj listing_remote) (JStr ''Berlin'')
               (get_all_guilds db_example))
   \<and> fst (process_all repr_example (listing_env ce_example) 0 db_example ?bs) = None
   \<and> ids_looked_up (snd (snd (process_all repr_example (listing_env ce_example) 0 db_example
            ?bs))) = [''1'', ''2'']"
    using tenant_failures_are_isolated[where e = env_bad and db = db_example
        and b = "JObj listing_remote" and l = "JStr ''Berlin''"
        and guilds = "get_all_guilds db_example" and g = "''g1''" and c = "''100''"]
      tenant_failures_are_isolated[where e = "env_bad\<lparr>sink := (\<lambda>c b l. Failed)\<rparr>"
        and b = "JObj listing_remote" and l = "JStr ''Berlin''" and c = "''200''"]
      tenant_failures_are_isolated[where e = env_bad and db = db_example
        and b = "JObj listing_remote" and l = "JStr ''Berlin''"
        and guilds = "get_all_guilds db_example" and g = "''g2''" and c = "''200''"]
      tenant_failures_are_isolated[where bs = "[JObj listing_remote, JObj [], JObj listing_berlin]"
        and envs = "listing_env ce_example" and R = repr_example and ?k0.0 = 0
        and db = db_example]
      h1 h2 h3 h4 h5 v1 v2
    by simp
  from old n1 n2 show ?thesis
    by blast
qed

lemma py_contains_empty: "py_contains hay [] = True"
  by (cases hay) simp_all

lemma match_keywords_empty:
  "[] \<in> set kws \<Longrightarrow> match_keywords (JStr location) kws = Inr True"
  by (induction kws) (auto simp: matches_location_def lower_def py_contains_empty)

text \<open>
  C9. \<open>matches_location location ""\<close> is true for every location string. So the keyword loop
  answers true for every string location as soon as the empty keyword is among the tenant's
  keywords, and a tenant with a channel and the empty keyword gets a delivery for every
  listing that has an id, is not yet processed and whose location is a string (or absent,
  which reads as \<open>"Remote"\<close>), when no database call fails.
\<close>

theorem empty_keyword_matches_every_location:
  "matches_location location [] = True
   \<and> ([] \<in> set kws \<longrightarrow> match_keywords (JStr location) kws = Inr True)
   \<and> ((g, c) \<in> set (get_all_guilds db) \<and> [] \<in> set (get_subscriptions db g)
        \<and> bounty_id R d \<noteq> [] \<and> \<not> is_bounty_processed db (bounty_id R d)
        \<and> (\<forall>call. \<not> store_fails e call)
        \<and> dict_get d ''location'' (JStr ''Remote'') = JStr location \<longrightarrow>
      Send c (JObj d) (JStr location) \<in> set (snd (snd (process_bounty R e db (JObj d)))))"
proof (intro conjI impI)
  show "matches_location location [] = True"
    by (simp add: matches_location_def lower_def py_contains_empty)
  show "[] \<in> set kws \<Longrightarrow> match_keywords (JStr location) kws = Inr True"
    by (rule match_keywords_empty)
  assume a: "(g, c) \<in> set (get_all_guilds db) \<and> [] \<in> set (get_subscriptions db g)
        \<and> bounty_id R d \<noteq> [] \<and> \<not> is_bounty_processed db (bounty_id R d)
        \<and> (\<forall>call. \<not> store_fails e call)
        \<and> dict_get d ''location'' (JStr ''Remote'') = JStr location"
  let ?db = "mark_bounty_processed (current_timestamp e) db (bounty_id R d)"
  from a have m: "match_keywords (JStr location) (get_subscriptions ?db g) = Inr True"
    by (simp add: match_keywords_empty)
  from a have "Send c (JObj d) (JStr location)
      \<in> set (fanout e ?db (JObj d) (JStr location) (get_all_guilds db))"
    using fanout_delivers[of g c "get_all_guilds db" e "JStr location" ?db "JObj d"] m
    by simp
  with a show "Send c (JObj d) (JStr location) \<in> set (snd (snd (process_bounty R e db (JObj d))))"
    by (simp add: process_bounty_fresh)
qed

theorem empty_keyword_matches_every_location_witness:
  "matches_location ''Tokyo, Japan'' [] = True
   \<and> match_keywords (JStr ''Tokyo, Japan'') [''berlin'', []] = Inr True
   \<and> Send ''200'' (JObj listing_remote) (JStr ''Remote'')
       \<in> set (snd (snd (process_bounty repr_example env_ok db_catch_all (JObj listing_remote))))
   \<and> Send ''200'' (JObj listing_remote) (JStr ''Remote'')
       \<notin> set (snd (snd (process_bounty repr_example env_ok db_example (JObj listing_remote))))"
proof -
  have h1: "[] \<in> set [''berlin'', []]"
    by simp
  have h2: "(''g2'', ''200'') \<in> set (get_all_guilds db_catch_all)
      \<and> [] \<in> set (get_subscriptions db_catch_all ''g2'')
      \<and> bounty_id repr_example listing_remote \<noteq> []
      \<and> \<not> is_bounty_processed db_catch_all (bounty_id repr_example listing_remote)
      \<and> dict_get listing_remote ''location'' (JStr ''Remote'') = JStr ''Remote''"
    by code_simp
  have h3: "\<forall>call. \<not> store_fails env_ok call"
    by (simp add: env_ok_def)
  have f: "Send ''200'' (JObj listing_remote) (JStr ''Remote'')
       \<notin> set (snd (snd (process_bounty repr_example env_ok db_example (JObj listing_remote))))"
    by code_simp
  show ?thesis
    using empty_keyword_matches_every_location[where location = "''Tokyo, Japan''"
        and kws = "[''berlin'', []]"]
      empty_keyword_matches_every_location[where location = "''Remote''" and g = "''g2''"
        and c = "''200''" and db = db_catch_all and R = repr_example and d = listing_remote
        and e = env_ok]
      h1 h2 h3 f
    by blast
qed

lemma probe_first_present:
  "key \<in> set keys \<Longrightarrow> map_of d key = Some v \<Longrightarrow>
   (\<forall>key' \<in> set (takeWhile (\<lambda>x. x \<noteq> key) keys). map_of d key' = None) \<Longrightarrow>
   probe keys d = Some v"
proof (induction keys)
  case Nil
  then show ?case by simp
next
  case (Cons k ks)
  show ?case
  proof (cases "k = key")
    case True
    with Cons.prems show ?thesis by simp
  next
    case False
    with Cons.prems have "map_of d k = None" "key \<in> set ks"
      "\<forall>key' \<in> set (takeWhile (\<lambda>x. x \<noteq> key) ks). map_of d key' = None"
      by simp_all
    with Cons.IH Cons.prems(2) show ?thesis by simp
  qed
qed

lemma probe_some_present:
  "key \<in> set keys \<Longrightarrow> map_of d key \<noteq> None \<Longrightarrow>
   \<exists>key' \<in> set keys. \<exists>v. map_of d key' = Some v \<and> probe keys d = Some v"
proof (induction keys)
  case Nil
  then show ?case by simp
next
  case (Cons k ks)
  show ?case
  proof (cases "map_of d k")
    case (Some v)
    then show ?thesis by auto
  next
    case None
    with Cons.prems have "key \<in> set ks" by auto
    from Cons.IH[OF this Cons.prems(2)] None show ?thesis by auto
  qed
qed

lemma fetch_bounties_probe:
  assumes "http 1 = Response 200 (Inr (JObj d))" "probe probe_keys d = Some v"
  shows "fetch_bounties n http = ([HttpGet], Inr v)"
proof -
  from assms have "fetch_once (http 1) = ([HttpGet], Inr v)"
    by simp
  then show ?thesis
    unfolding fetch_bounties_def by (rule retry_call_success)
qed

lemma poll_cycle_oops:
  "poll_cycle R ce_oops db =
     (db, [Log LInfo FetchingNew, HttpGet, Log LInfo (Retrieved 4),
           Log LError (PollingError AttributeError), Sleep 60])"
proof -
  have f: "fetch_bounties max_retries (http_env ce_oops) = ([HttpGet], Inr (JStr ''oops''))"
    unfolding fetch_bounties_def
    by (rule retry_call_success) (simp add: ce_oops_def http_seq_def probe_keys_def)
  have p: "process_bounty R e db (JStr s) = (Some AttributeError, db, [])" for e s
    by (simp add: process_bounty_def)
  show ?thesis
    by (simp add: poll_cycle_def f p poll_interval_def)
qed

text \<open>
  C10. When the decoded 200 body is a dict that holds one of the probed keys (among any other
  keys), \<open>fetch_bounties\<close> returns the value under the first probed key present as it is,
  whatever it is: nothing checks that it is a list of dicts. The body \<open>{"data": "oops"}\<close> makes it return the string \<open>"oops"\<close>, which is not
  of the declared shape \<open>List[Dict]\<close>; the poll cycle then counts four "bounties", fails on
  the first character and logs the polling error.
\<close>

theorem fetch_bounties_returns_unchecked_value:
  "(http 1 = Response 200 (Inr (JObj d)) \<and> probe probe_keys d = Some v \<longrightarrow>
      fetch_bounties n http = ([HttpGet], Inr v))
   \<and> (http 1 = Response 200 (Inr (JObj d)) \<and> key \<in> set probe_keys \<and> map_of d key = Some v
        \<and> (\<forall>key' \<in> set (takeWhile (\<lambda>x. x \<noteq> key) probe_keys). map_of d key' = None) \<longrightarrow>
      fetch_bounties n http = ([HttpGet], Inr v))
   \<and> (http 1 = Response 200 (Inr (JObj d)) \<and> key \<in> set probe_keys \<and> map_of d key \<noteq> None \<longrightarrow>
      (\<exists>key' \<in> set probe_keys. \<exists>v'. map_of d key' = Some v'
          \<and> fetch_bounties n http = ([HttpGet], Inr v')))
   \<and> fetch_bounties n (http_seq [Response 200 (Inr (JObj [(''data'', JStr ''oops'')]))] dflt)
       = ([HttpGet], Inr (JStr ''oops''))
   \<and> \<not> is_listing_seq (JStr ''oops'')
   \<and> poll_cycle R ce_oops db =
       (db, [Log LInfo FetchingNew, HttpGet, Log LInfo (Retrieved 4),
             Log LError (PollingError AttributeError), Sleep 60])"
proof (intro conjI impI)
  assume "http 1 = Response 200 (Inr (JObj d)) \<and> probe probe_keys d = Some v"
  then show "fetch_bounties n http = ([HttpGet], Inr v)"
    using fetch_bounties_probe by blast
next
  assume a: "http 1 = Response 200 (Inr (JObj d)) \<and> key \<in> set probe_keys \<and> map_of d key = Some v
        \<and> (\<forall>key' \<in> set (takeWhile (\<lambda>x. x \<noteq> key) probe_keys). map_of d key' = None)"
  then have "probe probe_keys d = Some v"
    using probe_first_present[of key probe_keys d v] by blast
  with a show "fetch_bounties n http = ([HttpGet], Inr v)"
    using fetch_bounties_probe by blast
next
  assume a: "http 1 = Response 200 (Inr (JObj d)) \<and> key \<in> set probe_keys \<and> map_of d key \<noteq> None"
  then obtain key' v' where k: "key' \<in> set probe_keys" "map_of d key' = Some v'"
    "probe probe_keys d = Some v'"
    using probe_some_present[of key probe_keys d] by blast
  from a k(3) have "fetch_bounties n http = ([HttpGet], Inr v')"
    using fetch_bounties_probe by blast
  with k show "\<exists>key' \<in> set probe_keys. \<exists>v'. map_of d key' = Some v'
          \<and> fetch_bounties n http = ([HttpGet], Inr v')"
    by blast
next
  show "fetch_bounties n (http_seq [Response 200 (Inr (JObj [(''data'', JStr ''oops'')]))] dflt)
       = ([HttpGet], Inr (JStr ''oops''))"
    unfolding fetch_bounties_def
    by (rule retry_call_success) (simp add: http_seq_def probe_keys_def)
next
  show "\<not> is_listing_seq (JStr ''oops'')"
    by simp
next
  show "poll_cycle R ce_oops db =
       (db, [Log LInfo FetchingNew, HttpGet, Log LInfo (Retrieved 4),
             Log LError (PollingError AttributeError), Sleep 60])"
    by (rule poll_cycle_oops)
qed

theorem fetch_bounties_returns_unchecked_value_witness:
  "fetch_bounties 3 (http_env ce_paged) = ([HttpGet], Inr (JInt 5))
   \<and> \<not> is_listing_seq (JInt 5)
   \<and> map_of body_paged ''data'' = Some (JInt 5)"
proof -
  have h1: "http_env ce_paged 1 = Response 200 (Inr (JObj body_paged))"
    by (simp add: ce_paged_def http_seq_def)
  have h2: "probe probe_keys body_paged = Some (JInt 5)"
    by (simp add: probe_keys_def body_paged_def)
  have h3: "''data'' \<in> set probe_keys \<and> map_of body_paged ''data'' = Some (JInt 5)
      \<and> (\<forall>key' \<in> set (takeWhile (\<lambda>x. x \<noteq> ''data'') probe_keys). map_of body_paged key' = None)"
    by (simp add: probe_keys_def body_paged_def)
  have h4: "''items'' \<in> set probe_keys \<and> map_of body_paged ''items'' \<noteq> None"
    by (simp add: probe_keys_def body_paged_def)
  note t = fetch_bounties_returns_unchecked_value[where http = "http_env ce_paged"
      and d = body_paged and n = 3]
  from t[where v = "JInt 5"] h1 h2 have c1: "fetch_bounties 3 (http_env ce_paged) = ([HttpGet], Inr (JInt 5))"
    by blast
  from t[where v = "JInt 5" and key = "''data''"] h1 h3
  have c2: "fetch_bounties 3 (http_env ce_paged) = ([HttpGet], Inr (JInt 5))"
    by blast
  from t[where key = "''items''"] h1 h4
  have c3: "\<exists>key' \<in> set probe_keys. \<exists>v'. map_of body_paged key' = Some v'
          \<and> fetch_bounties 3 (http_env ce_paged) = ([HttpGet], Inr v')"
    by blast
  from c1 c2 c3 h3 show ?thesis
    by simp
qed

subsection \<open>Retry and backoff\<close>

lemma attempts_append [simp]: "attempts (xs @ ys) = attempts xs + attempts ys"
  by (simp add: attempts_def)

lemma sleeps_append [simp]: "sleeps (xs @ ys) = sleeps xs @ sleeps ys"
  by (simp add: sleeps_def)

lemma normalize_response_quiet:
  "attempts (fst (normalize_response v)) = 0 \<and> sleeps (fst (normalize_response v)) = []"
  by (cases v) (auto simp: attempts_def sleeps_def split: option.splits)

lemma fetch_once_one_request:
  "attempts (fst (fetch_once out)) = 1 \<and> sleeps (fst (fetch_once out)) = []"
proof (cases out)
  case (Raised e)
  then show ?thesis
    by (simp add: attempts_def sleeps_def on_exception_def)
next
  case (Response status body)
  show ?thesis
  proof (cases body)
    case (Inl e)
    with Response show ?thesis
      by (simp add: attempts_def sleeps_def on_exception_def)
  next
    case (Inr data)
    with Response normalize_response_quiet[of data] show ?thesis
      by (simp add: attempts_def sleeps_def on_exception_def)
  qed
qed

lemma transient_iff:
  "transient out \<longleftrightarrow>
     (out = Raised ClientError \<or> out = Raised TimeoutError
      \<or> (\<exists>body. out = Response 429 body)
      \<or> out = Response 200 (Inl ClientError) \<or> out = Response 200 (Inl TimeoutError))"
proof (cases out)
  case (Raised e)
  then show ?thesis
    by (auto simp: transient_def retry_if_exception_type_def)
next
  case (Response status body)
  then show ?thesis
    by (cases body) (auto simp: transient_def retry_if_exception_type_def)
qed

lemma transient_fetch_once:
  assumes "transient out"
  obtains evs e where "fetch_once out = (evs, Inl e)" "retry_if_exception_type e"
    "attempts evs = 1" "sleeps evs = []"
proof -
  obtain evs r where f: "fetch_once out = (evs, r)"
    by (cases "fetch_once out") auto
  with assms obtain e where r: "r = Inl e" and p: "retry_if_exception_type e"
    by (cases r) (auto simp: transient_def)
  from f fetch_once_one_request[of out] have "attempts evs = 1" "sleeps evs = []"
    by simp_all
  with f r p show ?thesis
    by (auto intro: that)
qed

lemma retry_call_exhausted:
  assumes t: "\<And>k. transient (http k)"
  shows "1 \<le> k \<Longrightarrow> int k \<le> n \<Longrightarrow>
    snd (retry_call n http k) = Inl RetryError
    \<and> attempts (fst (retry_call n http k)) = Suc (nat n - k)
    \<and> sleeps (fst (retry_call n http k)) = map (wait_exponential 1 2 10) [k..<nat n]"
proof (induction "nat n - k" arbitrary: k)
  case 0
  then have kn: "int k = n" by simp
  from transient_fetch_once[OF t[of k]] obtain evs e where
    f: "fetch_once (http k) = (evs, Inl e)" "retry_if_exception_type e"
      "attempts evs = 1" "sleeps evs = []"
    by blast
  have "retry_call n http k = (evs, Inl RetryError)"
    using f kn by (subst retry_call.simps) (simp add: stop_after_attempt_def)
  with f kn show ?case by auto
next
  case (Suc m)
  then have kn: "int k < n" by simp
  from transient_fetch_once[OF t[of k]] obtain evs e where
    f: "fetch_once (http k) = (evs, Inl e)" "retry_if_exception_type e"
      "attempts evs = 1" "sleeps evs = []"
    by blast
  have r: "retry_call n http k =
     (evs @ [Log LWarning (Retrying k), Sleep (wait_exponential 1 2 10 k)]
          @ fst (retry_call n http (Suc k)), snd (retry_call n http (Suc k)))"
    using retry_call_retry[of http k evs e n] f kn by simp
  from Suc.hyps(2) have m: "m = nat n - Suc k" by simp
  from Suc.hyps(1)[OF m] kn
  have ih: "snd (retry_call n http (Suc k)) = Inl RetryError"
    "attempts (fst (retry_call n http (Suc k))) = Suc (nat n - Suc k)"
    "sleeps (fst (retry_call n http (Suc k))) = map (wait_exponential 1 2 10) [Suc k..<nat n]"
    by simp_all
  from kn have up: "[k..<nat n] = k # [Suc k..<nat n]"
    by (simp add: upt_conv_Cons)
  from kn have sk: "Suc (nat n - Suc k) = nat n - k" by simp
  show ?case
    using r ih f up sk by (simp add: attempts_def sleeps_def)
qed

lemma wait_exponential_eq: "wait_exponential 1 2 10 k = max 2 (min (2 ^ (k - 1)) 10)"
  by (simp add: wait_exponential_def)

lemma wait_exponential_bounds: "2 \<le> wait_exponential 1 2 10 k \<and> wait_exponential 1 2 10 k \<le> 10"
  by (simp add: wait_exponential_def)

lemma wait_exponential_mono: "k \<le> k' \<Longrightarrow> wait_exponential 1 2 10 k \<le> wait_exponential 1 2 10 k'"
proof -
  assume "k \<le> k'"
  then have "(2::int) ^ (k - 1) \<le> 2 ^ (k' - 1)"
    by (intro power_increasing) auto
  then show ?thesis
    unfolding wait_exponential_def by linarith
qed

lemma wait_exponential_at_most_double:
  "wait_exponential 1 2 10 (Suc k) \<le> 2 * wait_exponential 1 2 10 k"
proof (cases k)
  case 0
  then show ?thesis by (simp add: wait_exponential_def)
next
  case (Suc j)
  then show ?thesis by (simp add: wait_exponential_def)
qed

lemma sorted_waits: "sorted (map (wait_exponential 1 2 10) [a..<b])"
  by (simp add: sorted_map sorted_wrt_iff_nth_less wait_exponential_mono)


lemma http_seq_transient:
  assumes "list_all transient outs" "transient dflt"
  shows "transient (http_seq outs dflt k)"
proof (cases "0 < k \<and> k \<le> length outs")
  case True
  then have "k - 1 < length outs" by arith
  with assms(1) have "transient (outs ! (k - 1))"
    by (simp add: list_all_length)
  with True show ?thesis by (simp add: http_seq_def)
next
  case False
  with assms(2) show ?thesis by (auto simp: http_seq_def)
qed

lemma fetch_exhausted:
  assumes "\<And>k. transient (http k)" "1 \<le> n"
  shows "snd (fetch_bounties n http) = Inl RetryError"
    and "attempts (fst (fetch_bounties n http)) = nat n"
    and "sleeps (fst (fetch_bounties n http)) = map (wait_exponential 1 2 10) [1..<nat n]"
  using retry_call_exhausted[of http 1 n] assms by (simp_all add: fetch_bounties_def)

lemma waits_default: "map (wait_exponential 1 2 10) [1..<nat max_retries] = [2, 2]"
  by (simp add: max_retries_def wait_exponential_def upt_conv_Cons)

lemma poll_cycle_exhausted:
  assumes "\<And>k. transient (http_env ce k)"
  shows "poll_cycle R ce db =
     (db, Log LInfo FetchingNew # fst (fetch_bounties max_retries (http_env ce))
            @ [Log LError (PollingError RetryError), Sleep poll_interval])"
proof -
  have "1 \<le> max_retries" by (simp add: max_retries_def)
  from fetch_exhausted(1)[of "http_env ce" max_retries, OF assms this]
  show ?thesis
    by (cases "fetch_bounties max_retries (http_env ce)") (simp add: poll_cycle_def)
qed

text \<open>
  C3 (as amended). An attempt fails with a transient error when it raises a network error or
  a timeout (from the request, or from reading the body of a 200 response) or meets the
  status 429; these are the failures the decorator retries. When every attempt fails so and \<open>max_retries\<close> is at
  least 1 (the configuration always holds 3), \<open>fetch_bounties\<close> makes exactly \<open>max_retries\<close>
  requests and ends in \<open>RetryError\<close>. The sleep after the \<open>k\<close>-th failed attempt is
  \<open>max(2, min(2^(k-1), 10))\<close> seconds, that is 2, 2, 4, 8, 10, 10, ...: the first is 2, each is
  at least the one before and at most its double, and none exceeds 10. The poll cycle catches
  the error: it logs it, leaves the database as it was, sends nothing, sleeps the poll
  interval (with the default three attempts its sleeps are 2, 2 and 60 seconds), and the
  loop goes on with the next cycle.
\<close>

theorem retry_exhaustion:
  "((\<forall>k. transient (http k)) \<and> 1 \<le> n \<longrightarrow>
       snd (fetch_bounties n http) = Inl RetryError
       \<and> attempts (fst (fetch_bounties n http)) = nat n
       \<and> sleeps (fst (fetch_bounties n http)) = map (wait_exponential 1 2 10) [1..<nat n]
       \<and> sorted (sleeps (fst (fetch_bounties n http)))
       \<and> list_all (\<lambda>s. 2 \<le> s \<and> s \<le> 10) (sleeps (fst (fetch_bounties n http))))
   \<and> transient out
       = (out = Raised ClientError \<or> out = Raised TimeoutError
          \<or> (\<exists>body. out = Response 429 body)
          \<or> out = Response 200 (Inl ClientError) \<or> out = Response 200 (Inl TimeoutError))
   \<and> wait_exponential 1 2 10 k = max 2 (min (2 ^ (k - 1)) 10)
   \<and> wait_exponential 1 2 10 1 = 2
   \<and> wait_exponential 1 2 10 k \<le> wait_exponential 1 2 10 (Suc k)
   \<and> wait_exponential 1 2 10 (Suc k) \<le> 2 * wait_exponential 1 2 10 k
   \<and> ((\<forall>k. transient (http_env ce k)) \<longrightarrow>
       poll_cycle R ce db =
         (db, Log LInfo FetchingNew # fst (fetch_bounties max_retries (http_env ce))
                @ [Log LError (PollingError RetryError), Sleep poll_interval])
       \<and> attempts (snd (poll_cycle R ce db)) = 3
       \<and> sleeps (snd (poll_cycle R ce db)) = [2, 2, 60]
       \<and> sends (snd (poll_cycle R ce db)) = []
       \<and> poll_bounties R (ce # ces) db =
           (fst (poll_bounties R ces db),
            snd (poll_cycle R ce db) @ snd (poll_bounties R ces db)))"
proof (intro conjI impI)
  assume a: "(\<forall>k. transient (http k)) \<and> 1 \<le> n"
  then have t: "\<And>k. transient (http k)" and n: "1 \<le> n" by simp_all
  show "snd (fetch_bounties n http) = Inl RetryError"
    by (rule fetch_exhausted(1)[OF t n])
  show "attempts (fst (fetch_bounties n http)) = nat n"
    by (rule fetch_exhausted(2)[OF t n])
  show s: "sleeps (fst (fetch_bounties n http)) = map (wait_exponential 1 2 10) [1..<nat n]"
    by (rule fetch_exhausted(3)[OF t n])
  show "sorted (sleeps (fst (fetch_bounties n http)))"
    unfolding s by (rule sorted_waits)
  show "list_all (\<lambda>s. 2 \<le> s \<and> s \<le> 10) (sleeps (fst (fetch_bounties n http)))"
    unfolding s by (simp add: list_all_iff wait_exponential_bounds)
next
  show "transient out
       = (out = Raised ClientError \<or> out = Raised TimeoutError
          \<or> (\<exists>body. out = Response 429 body)
          \<or> out = Response 200 (Inl ClientError) \<or> out = Response 200 (Inl TimeoutError))"
    by (rule transient_iff)
  show "wait_exponential 1 2 10 k = max 2 (min (2 ^ (k - 1)) 10)"
    by (rule wait_exponential_eq)
  show "wait_exponential 1 2 10 1 = 2"
    by (simp add: wait_exponential_def)
  show "wait_exponential 1 2 10 k \<le> wait_exponential 1 2 10 (Suc k)"
    by (rule wait_exponential_mono) simp
  show "wait_exponential 1 2 10 (Suc k) \<le> 2 * wait_exponential 1 2 10 k"
    by (rule wait_exponential_at_most_double)
next
  assume "\<forall>k. transient (http_env ce k)"
  then have t: "\<And>k. transient (http_env ce k)" by simp
  have n: "1 \<le> max_retries" by (simp add: max_retries_def)
  let ?evs = "fst (fetch_bounties max_retries (http_env ce))"
  show p: "poll_cycle R ce db =
         (db, Log LInfo FetchingNew # ?evs @ [Log LError (PollingError RetryError), Sleep poll_interval])"
    by (rule poll_cycle_exhausted[OF t])
  have a: "attempts ?evs = 3"
    using fetch_exhausted(2)[OF t n] by (simp add: max_retries_def)
  have s: "sleeps ?evs = [2, 2]"
    using fetch_exhausted(3)[OF t n] waits_default by simp
  have d: "sends ?evs = []"
    by (simp add: fetch_bounties_def retry_call_no_send)
  show "attempts (snd (poll_cycle R ce db)) = 3"
    using a by (simp add: p attempts_def)
  show "sleeps (snd (poll_cycle R ce db)) = [2, 2, 60]"
    using s by (simp add: p sleeps_def poll_interval_def)
  show "sends (snd (poll_cycle R ce db)) = []"
    using d by (simp add: p sends_def)
  show "poll_bounties R (ce # ces) db =
           (fst (poll_bounties R ces db),
            snd (poll_cycle R ce db) @ snd (poll_bounties R ces db))"
    by (simp add: p split: prod.splits)
qed

theorem retry_exhaustion_witness:
  "snd (fetch_bounties 5 (http_env ce_down)) = Inl RetryError
   \<and> attempts (fst (fetch_bounties 5 (http_env ce_down))) = 5
   \<and> sleeps (fst (fetch_bounties 5 (http_env ce_down))) = [2, 2, 4, 8]
   \<and> fst (poll_cycle repr_example ce_down db_example) = db_example
   \<and> attempts (snd (poll_cycle repr_example ce_down db_example)) = 3
   \<and> sleeps (snd (poll_cycle repr_example ce_down db_example)) = [2, 2, 60]
   \<and> sends (snd (poll_cycle repr_example ce_down db_example)) = []"
proof -
  have l: "list_all transient [Response 429 (Inl JSONDecodeError), Raised ClientError,
      Response 200 (Inl TimeoutError)]"
    by (simp add: transient_iff)
  have d: "transient (Raised TimeoutError)"
    by (simp add: transient_iff)
  have h: "\<forall>k. transient (http_env ce_down k)"
    using http_seq_transient[OF l d] by (simp add: ce_down_def)
  have n: "(1::int) \<le> 5"
    by simp
  have w: "map (wait_exponential 1 2 10) [1..<nat 5] = [2, 2, 4, 8]"
    by code_simp
  note t = retry_exhaustion[where http = "http_env ce_down" and n = 5 and ce = ce_down
        and R = repr_example and db = db_example]
  from t h n have c1: "snd (fetch_bounties 5 (http_env ce_down)) = Inl RetryError"
    by blast
  from t h n have "attempts (fst (fetch_bounties 5 (http_env ce_down))) = nat 5"
    by blast
  then have c2: "attempts (fst (fetch_bounties 5 (http_env ce_down))) = 5"
    by simp
  from t h n have "sleeps (fst (fetch_bounties 5 (http_env ce_down)))
      = map (wait_exponential 1 2 10) [1..<nat 5]"
    by blast
  with w have c3: "sleeps (fst (fetch_bounties 5 (http_env ce_down))) = [2, 2, 4, 8]"
    by simp
  from t h have "poll_cycle repr_example ce_down db_example =
         (db_example, Log LInfo FetchingNew # fst (fetch_bounties max_retries (http_env ce_down))
                @ [Log LError (PollingError RetryError), Sleep poll_interval])"
    by blast
  then have c4: "fst (poll_cycle repr_example ce_down db_example) = db_example"
    by simp
  from t h have c5: "attempts (snd (poll_cycle repr_example ce_down db_example)) = 3"
    by blast
  from t h have c6: "sleeps (snd (poll_cycle repr_example ce_down db_example)) = [2, 2, 60]"
    by blast
  from t h have c7: "sends (snd (poll_cycle repr_example ce_down db_example)) = []"
    by blast
  from c1 c2 c3 c4 c5 c6 c7 show ?thesis
    by blast
qed

text \<open>
  C3 as stated fails: against a source that is down, the three attempts of the default
  configuration are separated by two sleeps of 2 seconds each; the second is not the double
  of the first.
\<close>

theorem retry_delays_do_not_double:
  "transient (Response 429 (Inl JSONDecodeError)) \<and> transient (Raised ClientError)
   \<and> transient (Response 200 (Inl TimeoutError)) \<and> transient (Raised TimeoutError)
   \<and> attempts (fst (fetch_bounties max_retries (http_env ce_down))) = 3
   \<and> sleeps (fst (fetch_bounties max_retries (http_env ce_down))) = [2, 2]
   \<and> \<not> doubles_each_retry (sleeps (fst (fetch_bounties max_retries (http_env ce_down))))"
  by code_simp

end
